theory Spec2Isabelle
  imports Complex_Main "HOL-Library.Word" "HOL-Library.Multiset"
begin

unbundle bit_operations_syntax

section \<open>Numbers, vectors and boxes\<close>

text \<open>
  The C++ type \<^verbatim>\<open>float\<close> is modelled by \<^typ>\<open>real\<close>: arithmetic is exact, and there are
  no infinities and no NaN. Comparisons, \<^verbatim>\<open>fminf\<close>/\<^verbatim>\<open>fmaxf\<close> and every branch of the code
  are kept as written. The literals \<^verbatim>\<open>1e30f\<close>, \<^verbatim>\<open>0.00001f\<close>, \<^verbatim>\<open>0.0001f\<close> and \<^verbatim>\<open>0.3333f\<close> are
  the decimal numbers they spell, written as fractions. \<^verbatim>\<open>uint\<close> values that are indices or counts are \<^typ>\<open>nat\<close>;
  the packed identifier \<^verbatim>\<open>instPrim\<close>, where the shift and the mask wrap, is a \<^typ>\<open>32 word\<close>.
\<close>

record float3 =
  xc :: real
  yc :: real
  zc :: real

definition float3_splat :: "real \<Rightarrow> float3" where
  "float3_splat a = \<lparr>xc = a, yc = a, zc = a\<rparr>"

definition f3_add :: "float3 \<Rightarrow> float3 \<Rightarrow> float3" where
  "f3_add a b = \<lparr>xc = xc a + xc b, yc = yc a + yc b, zc = zc a + zc b\<rparr>"

definition f3_sub :: "float3 \<Rightarrow> float3 \<Rightarrow> float3" where
  "f3_sub a b = \<lparr>xc = xc a - xc b, yc = yc a - yc b, zc = zc a - zc b\<rparr>"

definition f3_scale :: "float3 \<Rightarrow> real \<Rightarrow> float3" where
  "f3_scale a k = \<lparr>xc = xc a * k, yc = yc a * k, zc = zc a * k\<rparr>"

definition cross :: "float3 \<Rightarrow> float3 \<Rightarrow> float3" where
  "cross a b = \<lparr>xc = yc a * zc b - zc a * yc b,
                 yc = zc a * xc b - xc a * zc b,
                 zc = xc a * yc b - yc a * xc b\<rparr>"

definition dot :: "float3 \<Rightarrow> float3 \<Rightarrow> real" where
  "dot a b = xc a * xc b + yc a * yc b + zc a * zc b"

definition fminf :: "float3 \<Rightarrow> float3 \<Rightarrow> float3" where
  "fminf a b = \<lparr>xc = min (xc a) (xc b), yc = min (yc a) (yc b), zc = min (zc a) (zc b)\<rparr>"

definition fmaxf :: "float3 \<Rightarrow> float3 \<Rightarrow> float3" where
  "fmaxf a b = \<lparr>xc = max (xc a) (xc b), yc = max (yc a) (yc b), zc = max (zc a) (zc b)\<rparr>"

text \<open>
  \<^verbatim>\<open>float3::operator[]\<close> reads \<^verbatim>\<open>cell[n]\<close>. An index outside 0..2 reads memory that is
  not part of the vector; what is found there is the parameter \<open>oob\<close>.
\<close>

definition cell :: "real \<Rightarrow> float3 \<Rightarrow> int \<Rightarrow> real" where
  "cell oob a n = (if n = 0 then xc a else if n = 1 then yc a else if n = 2 then zc a else oob)"

text \<open>The sentinel \<^verbatim>\<open>1e30f\<close>.\<close>

definition inf30 :: real where
  "inf30 = 10 ^ 30"

text \<open>
  Modelled from the spec: the struct \<^verbatim>\<open>aabb\<close> is declared in a header that is not part of
  the sources. Two 3-vectors min and max; the empty box is min = +1e30, max = -1e30;
  grow by a point, grow by a box, and the half surface area.
\<close>

record aabb =
  bmin :: float3
  bmax :: float3

definition aabb_empty :: aabb where
  "aabb_empty = \<lparr>bmin = float3_splat inf30, bmax = float3_splat (- inf30)\<rparr>"

definition grow :: "aabb \<Rightarrow> float3 \<Rightarrow> aabb" where
  "grow b p = \<lparr>bmin = fminf (bmin b) p, bmax = fmaxf (bmax b) p\<rparr>"

definition grow_aabb :: "aabb \<Rightarrow> aabb \<Rightarrow> aabb" where
  "grow_aabb b c = \<lparr>bmin = fminf (bmin b) (bmin c), bmax = fmaxf (bmax b) (bmax c)\<rparr>"

definition half_area :: "float3 \<Rightarrow> float3 \<Rightarrow> real" where
  "half_area lo hi = (let e = f3_sub hi lo in xc e * yc e + yc e * zc e + zc e * xc e)"

definition area :: "aabb \<Rightarrow> real" where
  "area b = half_area (bmin b) (bmax b)"

section \<open>Triangles, rays and the hit record\<close>

record Tri =
  vertex0 :: float3
  vertex1 :: float3
  vertex2 :: float3
  centroid :: float3

text \<open>
  A mesh is the pointer \<^verbatim>\<open>tri\<close> and the count \<^verbatim>\<open>triCount\<close>. The pointer is modelled as the
  memory behind it, a function from the index to the triangle found there.
\<close>

record Mesh =
  tri :: "nat \<Rightarrow> Tri"
  triCount :: nat

record Intersection =
  hit_t :: real
  hit_u :: real
  hit_v :: real
  instPrim :: "32 word"

record Ray =
  ray_O :: float3
  ray_D :: float3
  ray_rD :: float3
  hit :: Intersection

subsection \<open>IntersectTri\<close>

text \<open>
  The two thresholds are the single-precision literals \<^verbatim>\<open>0.00001f\<close> and \<^verbatim>\<open>0.0001f\<close>: the
  binary fractions nearest to the decimals, both a little below them.
\<close>

definition parallel_eps :: real where
  "parallel_eps = 2748779 / 2 ^ 38"

definition near_eps :: real where
  "near_eps = 13743895 / 2 ^ 37"

definition IntersectTri :: "Ray \<Rightarrow> Tri \<Rightarrow> 32 word \<Rightarrow> Ray" where
  "IntersectTri ray tr ip =
    (let edge1 = f3_sub (vertex1 tr) (vertex0 tr);
         edge2 = f3_sub (vertex2 tr) (vertex0 tr);
         h = cross (ray_D ray) edge2;
         a = dot edge1 h
     in if \<bar>a\<bar> < parallel_eps then ray
        else
          let f = 1 / a;
              s = f3_sub (ray_O ray) (vertex0 tr);
              u = f * dot s h
          in if u < 0 \<or> u > 1 then ray
             else
               let q = cross s edge1;
                   v = f * dot (ray_D ray) q
               in if v < 0 \<or> u + v > 1 then ray
                  else
                    let t = f * dot edge2 q
                    in if t > near_eps \<and> t < hit_t (hit ray)
                       then ray\<lparr>hit := \<lparr>hit_t = t, hit_u = u, hit_v = v, instPrim = ip\<rparr>\<rparr>
                       else ray)"

text \<open>
  The quantities of the M\"oller-Trumbore test as the specification names them:
  \<open>a = edge1 \<cdot> (D \<times> edge2)\<close>, \<open>u = (s \<cdot> h) / a\<close>, \<open>v = (D \<cdot> q) / a\<close>, \<open>t = (edge2 \<cdot> q) / a\<close>
  with \<open>s = O - v0\<close>, \<open>h = D \<times> edge2\<close>, \<open>q = s \<times> edge1\<close>.
\<close>

definition mt_a :: "Ray \<Rightarrow> Tri \<Rightarrow> real" where
  "mt_a ray tr =
     dot (f3_sub (vertex1 tr) (vertex0 tr))
         (cross (ray_D ray) (f3_sub (vertex2 tr) (vertex0 tr)))"

definition mt_u :: "Ray \<Rightarrow> Tri \<Rightarrow> real" where
  "mt_u ray tr =
     dot (f3_sub (ray_O ray) (vertex0 tr))
         (cross (ray_D ray) (f3_sub (vertex2 tr) (vertex0 tr))) / mt_a ray tr"

definition mt_v :: "Ray \<Rightarrow> Tri \<Rightarrow> real" where
  "mt_v ray tr =
     dot (ray_D ray)
         (cross (f3_sub (ray_O ray) (vertex0 tr)) (f3_sub (vertex1 tr) (vertex0 tr)))
       / mt_a ray tr"

definition mt_t :: "Ray \<Rightarrow> Tri \<Rightarrow> real" where
  "mt_t ray tr =
     dot (f3_sub (vertex2 tr) (vertex0 tr))
         (cross (f3_sub (ray_O ray) (vertex0 tr)) (f3_sub (vertex1 tr) (vertex0 tr)))
       / mt_a ray tr"

definition mt_reject :: "Ray \<Rightarrow> Tri \<Rightarrow> bool" where
  "mt_reject ray tr \<longleftrightarrow>
     \<bar>mt_a ray tr\<bar> < parallel_eps \<or> mt_u ray tr < 0 \<or> mt_u ray tr > 1 \<or>
     mt_v ray tr < 0 \<or> mt_u ray tr + mt_v ray tr > 1"

lemma IntersectTri_unfold:
  "IntersectTri ray tr ip =
     (if mt_reject ray tr \<or> \<not> (mt_t ray tr > near_eps \<and> mt_t ray tr < hit_t (hit ray))
      then ray
      else ray\<lparr>hit := \<lparr>hit_t = mt_t ray tr, hit_u = mt_u ray tr, hit_v = mt_v ray tr,
                        instPrim = ip\<rparr>\<rparr>)"
  by (simp add: IntersectTri_def mt_reject_def mt_a_def mt_u_def mt_v_def mt_t_def Let_def)

section \<open>The bottom-level structure\<close>

text \<open>
  Modelled from the spec: \<^verbatim>\<open>BVHNode\<close>, its \<^verbatim>\<open>isLeaf\<close> and \<^verbatim>\<open>CalculateNodeCost\<close> are declared in
  a header that is not part of the sources. A node is aabbMin, leftFirst, aabbMax, triCount;
  it is a leaf iff \<open>triCount > 0\<close>; the cost of not splitting is triCount times the half area.
\<close>

record BVHNode =
  aabbMin :: float3
  leftFirst :: nat
  aabbMax :: float3
  triCount :: nat

definition isLeaf :: "BVHNode \<Rightarrow> bool" where
  "isLeaf node \<longleftrightarrow> BVHNode.triCount node > 0"

definition CalculateNodeCost :: "BVHNode \<Rightarrow> real" where
  "CalculateNodeCost node = half_area (aabbMin node) (aabbMax node) * real (BVHNode.triCount node)"

text \<open>Modelled from the spec: the macro \<^verbatim>\<open>BINS\<close> (8 in the reference).\<close>

definition BINS :: nat where
  "BINS = 8"

text \<open>
  The object \<^verbatim>\<open>BVH\<close>: the node pool and the index array are pointers, modelled as the memory
  behind them (what the constructor allocates is \<open>2 * triCount\<close> nodes and \<open>triCount\<close>
  indices; an access past that is an access to the same function at a larger index).
\<close>

record BVH =
  bvhNode :: "nat \<Rightarrow> BVHNode"
  triIdx :: "nat \<Rightarrow> nat"
  nodesUsed :: nat

text \<open>
  What the code reads without having written it: the locals \<^verbatim>\<open>axis\<close> and \<^verbatim>\<open>splitPos\<close> of
  \<^verbatim>\<open>Subdivide\<close> are declared without an initialiser (one pair for each call, so they are
  indexed by the node of the call), and \<^verbatim>\<open>centroid[axis]\<close> with such an axis may read beside
  the vector (indexed by the triangle and the axis).
\<close>

record Uninit =
  uninit_axis :: "nat \<Rightarrow> int"
  uninit_splitPos :: "nat \<Rightarrow> real"
  oob_cell :: "nat \<Rightarrow> int \<Rightarrow> real"

definition centroid_at :: "Uninit \<Rightarrow> Mesh \<Rightarrow> nat \<Rightarrow> int \<Rightarrow> real" where
  "centroid_at U mesh k a = cell (oob_cell U k a) (centroid (tri mesh k)) a"

definition node_upd :: "nat \<Rightarrow> (BVHNode \<Rightarrow> BVHNode) \<Rightarrow> BVH \<Rightarrow> BVH" where
  "node_upd k f s = s\<lparr>bvhNode := (bvhNode s)(k := f (bvhNode s k))\<rparr>"

subsection \<open>UpdateNodeBounds\<close>

definition grow_tri :: "Tri \<Rightarrow> float3 \<times> float3 \<Rightarrow> float3 \<times> float3" where
  "grow_tri leafTri b =
     (fminf (fminf (fminf (fst b) (vertex0 leafTri)) (vertex1 leafTri)) (vertex2 leafTri),
      fmaxf (fmaxf (fmaxf (snd b) (vertex0 leafTri)) (vertex1 leafTri)) (vertex2 leafTri))"

definition range_bounds :: "Mesh \<Rightarrow> (nat \<Rightarrow> nat) \<Rightarrow> nat \<Rightarrow> nat \<Rightarrow> float3 \<times> float3" where
  "range_bounds mesh tidx first n =
     fold (\<lambda>i b. grow_tri (tri mesh (tidx (first + i))) b) [0..<n]
       (float3_splat inf30, float3_splat (- inf30))"

definition UpdateNodeBounds :: "Mesh \<Rightarrow> nat \<Rightarrow> BVH \<Rightarrow> BVH" where
  "UpdateNodeBounds mesh nodeIdx s =
     (let node = bvhNode s nodeIdx;
          b = range_bounds mesh (triIdx s) (leftFirst node) (BVHNode.triCount node)
      in node_upd nodeIdx (\<lambda>n. n\<lparr>aabbMin := fst b, aabbMax := snd b\<rparr>) s)"

subsection \<open>FindBestSplitPlane\<close>

record Bin =
  bounds :: aabb
  binCount :: int

definition float_to_int :: "real \<Rightarrow> int" where
  "float_to_int r = (if r \<ge> 0 then \<lfloor>r\<rfloor> else \<lceil>r\<rceil>)"

definition centroid_range :: "Mesh \<Rightarrow> (nat \<Rightarrow> nat) \<Rightarrow> BVHNode \<Rightarrow> int \<Rightarrow> real \<times> real" where
  "centroid_range mesh tidx node a =
     fold (\<lambda>i (boundsMin, boundsMax).
             let c = cell 0 (centroid (tri mesh (tidx (leftFirst node + i)))) a
             in (min boundsMin c, max boundsMax c))
       [0..<BVHNode.triCount node] (inf30, - inf30)"

definition populate_bins ::
  "Mesh \<Rightarrow> (nat \<Rightarrow> nat) \<Rightarrow> BVHNode \<Rightarrow> int \<Rightarrow> real \<Rightarrow> real \<Rightarrow> Bin list" where
  "populate_bins mesh tidx node a boundsMin scale =
     fold (\<lambda>i bin.
             let triangle = tri mesh (tidx (leftFirst node + i));
                 binIdx = nat (min (int BINS - 1)
                            (float_to_int ((cell 0 (centroid triangle) a - boundsMin) * scale)));
                 b = bin ! binIdx
             in bin[binIdx := \<lparr>bounds = grow (grow (grow (bounds b) (vertex0 triangle))
                                               (vertex1 triangle)) (vertex2 triangle),
                                binCount = binCount b + 1\<rparr>])
       [0..<BVHNode.triCount node]
       (replicate BINS \<lparr>bounds = aabb_empty, binCount = 0\<rparr>)"

record Planes =
  leftArea :: "real list"
  rightArea :: "real list"
  leftCount :: "int list"
  rightCount :: "int list"
  leftBox :: aabb
  rightBox :: aabb
  leftSum :: int
  rightSum :: int

definition gather_planes :: "Bin list \<Rightarrow> Planes" where
  "gather_planes bin =
     fold (\<lambda>i p.
             let ls = leftSum p + binCount (bin ! i);
                 lb = grow_aabb (leftBox p) (bounds (bin ! i));
                 rs = rightSum p + binCount (bin ! (BINS - 1 - i));
                 rb = grow_aabb (rightBox p) (bounds (bin ! (BINS - 1 - i)))
             in \<lparr>leftArea = (leftArea p)[i := area lb],
                 rightArea = (rightArea p)[BINS - 2 - i := area rb],
                 leftCount = (leftCount p)[i := ls],
                 rightCount = (rightCount p)[BINS - 2 - i := rs],
                 leftBox = lb, rightBox = rb, leftSum = ls, rightSum = rs\<rparr>)
       [0..<BINS - 1]
       \<lparr>leftArea = replicate (BINS - 1) 0, rightArea = replicate (BINS - 1) 0,
        leftCount = replicate (BINS - 1) 0, rightCount = replicate (BINS - 1) 0,
        leftBox = aabb_empty, rightBox = aabb_empty, leftSum = 0, rightSum = 0\<rparr>"

text \<open>The state of the search is (bestCost, axis, splitPos).\<close>

definition best_plane ::
  "Planes \<Rightarrow> int \<Rightarrow> real \<Rightarrow> real \<Rightarrow> real \<times> int \<times> real \<Rightarrow> real \<times> int \<times> real" where
  "best_plane p a boundsMin scale best =
     fold (\<lambda>i (bestCost, axis, splitPos).
             let planeCost = real_of_int (leftCount p ! i) * (leftArea p ! i)
                           + real_of_int (rightCount p ! i) * (rightArea p ! i)
             in if planeCost < bestCost
                then (planeCost, a, boundsMin + scale * (real i + 1))
                else (bestCost, axis, splitPos))
       [0..<BINS - 1] best"

definition split_axis ::
  "Mesh \<Rightarrow> (nat \<Rightarrow> nat) \<Rightarrow> BVHNode \<Rightarrow> int \<Rightarrow> real \<times> int \<times> real \<Rightarrow> real \<times> int \<times> real" where
  "split_axis mesh tidx node a best =
     (let (boundsMin, boundsMax) = centroid_range mesh tidx node a
      in if boundsMin = boundsMax then best
         else
           let bin = populate_bins mesh tidx node a boundsMin
                       (real BINS / (boundsMax - boundsMin));
               p = gather_planes bin
           in best_plane p a boundsMin ((boundsMax - boundsMin) / real BINS) best)"

text \<open>
  The result is (bestCost, axis, splitPos): the value returned and the two reference
  parameters as the call leaves them.
\<close>

definition FindBestSplitPlane ::
  "Mesh \<Rightarrow> (nat \<Rightarrow> nat) \<Rightarrow> BVHNode \<Rightarrow> int \<Rightarrow> real \<Rightarrow> real \<times> int \<times> real" where
  "FindBestSplitPlane mesh tidx node axis splitPos =
     fold (split_axis mesh tidx node) [0, 1, 2] (inf30, axis, splitPos)"

subsection \<open>Subdivide\<close>

definition swap_at :: "(nat \<Rightarrow> nat) \<Rightarrow> nat \<Rightarrow> nat \<Rightarrow> nat \<Rightarrow> nat" where
  "swap_at tidx a b = tidx(a := tidx b, b := tidx a)"

function partition_loop ::
  "(nat \<Rightarrow> real) \<Rightarrow> real \<Rightarrow> (nat \<Rightarrow> nat) \<Rightarrow> int \<Rightarrow> int \<Rightarrow> (nat \<Rightarrow> nat) \<times> int" where
  "partition_loop key splitPos tidx i j =
     (if i \<le> j
      then if key (tidx (nat i)) < splitPos
           then partition_loop key splitPos tidx (i + 1) j
           else partition_loop key splitPos
                  (swap_at tidx (nat i) (nat j)) i (j - 1)
      else (tidx, i))"
  by pat_completeness auto
termination
  by (relation "measure (\<lambda>(key, splitPos, tidx, i, j). nat (j - i + 1))") auto

declare partition_loop.simps [simp del]

text \<open>
  The body of \<^verbatim>\<open>Subdivide\<close> up to its two recursive calls: the state it leaves, and the
  two children when it has split the node.
\<close>

definition Subdivide_split :: "Uninit \<Rightarrow> Mesh \<Rightarrow> BVH \<Rightarrow> nat \<Rightarrow> BVH \<times> (nat \<times> nat) option" where
  "Subdivide_split U mesh s nodeIdx =
     (let node = bvhNode s nodeIdx;
          (splitCost, axis, splitPos) =
             FindBestSplitPlane mesh (triIdx s) node
               (uninit_axis U nodeIdx) (uninit_splitPos U nodeIdx);
          nosplitCost = CalculateNodeCost node
      in if splitCost \<ge> nosplitCost then (s, None)
         else
           let i0 = int (leftFirst node);
               j0 = i0 + int (BVHNode.triCount node) - 1;
               (tidx, i) = partition_loop (\<lambda>k. centroid_at U mesh k axis) splitPos
                             (triIdx s) i0 j0;
               s1 = s\<lparr>triIdx := tidx\<rparr>;
               leftCount = i - int (leftFirst node)
           in if leftCount = 0 \<or> leftCount = int (BVHNode.triCount node) then (s1, None)
              else
                let leftChildIdx = nodesUsed s1;
                    rightChildIdx = nodesUsed s1 + 1;
                    s2 = s1\<lparr>nodesUsed := nodesUsed s1 + 2\<rparr>;
                    s3 = node_upd leftChildIdx
                           (\<lambda>n. n\<lparr>leftFirst := leftFirst (bvhNode s2 nodeIdx)\<rparr>) s2;
                    s4 = node_upd leftChildIdx (\<lambda>n. n\<lparr>triCount := nat leftCount\<rparr>) s3;
                    s5 = node_upd rightChildIdx (\<lambda>n. n\<lparr>leftFirst := nat i\<rparr>) s4;
                    s6 = node_upd rightChildIdx
                           (\<lambda>n. n\<lparr>triCount :=
                              BVHNode.triCount (bvhNode s5 nodeIdx) - nat leftCount\<rparr>) s5;
                    s7 = node_upd nodeIdx (\<lambda>n. n\<lparr>leftFirst := leftChildIdx\<rparr>) s6;
                    s8 = node_upd nodeIdx (\<lambda>n. n\<lparr>triCount := 0\<rparr>) s7;
                    s9 = UpdateNodeBounds mesh leftChildIdx s8;
                    s10 = UpdateNodeBounds mesh rightChildIdx s9
                in (s10, Some (leftChildIdx, rightChildIdx)))"

text \<open>
  Facts about the body that the termination of \<^verbatim>\<open>Subdivide\<close> rests on: a split makes two
  children in the next two free slots, each with fewer triangles than the node, and leaves
  every other node in use as it was.
\<close>

lemma node_upd_simps:
  "bvhNode (node_upd k f s) = (bvhNode s)(k := f (bvhNode s k))"
  "triIdx (node_upd k f s) = triIdx s"
  "nodesUsed (node_upd k f s) = nodesUsed s"
  by (simp_all add: node_upd_def)

lemma UpdateNodeBounds_simps:
  "triIdx (UpdateNodeBounds mesh k s) = triIdx s"
  "nodesUsed (UpdateNodeBounds mesh k s) = nodesUsed s"
  "leftFirst (bvhNode (UpdateNodeBounds mesh k s) i) = leftFirst (bvhNode s i)"
  "BVHNode.triCount (bvhNode (UpdateNodeBounds mesh k s) i) = BVHNode.triCount (bvhNode s i)"
  "i \<noteq> k \<Longrightarrow> bvhNode (UpdateNodeBounds mesh k s) i = bvhNode s i"
  by (simp_all add: UpdateNodeBounds_def Let_def node_upd_simps)

lemma partition_loop_bounds:
  "partition_loop key sp tidx i j = (tidx', i') \<Longrightarrow> i \<le> j + 1 \<Longrightarrow> i \<le> i' \<and> i' \<le> j + 1"
proof (induction key sp tidx i j arbitrary: tidx' i' rule: partition_loop.induct)
  case (1 key sp tidx i j)
  show ?case
  proof (cases "i \<le> j")
    case False
    with "1.prems" show ?thesis by (simp add: partition_loop.simps[of key sp tidx i j])
  next
    case True
    show ?thesis
    proof (cases "key (tidx (nat i)) < sp")
      case T2: True
      with True "1.prems" "1.IH"(1)[of tidx' i'] show ?thesis
        by (simp add: partition_loop.simps[of key sp tidx i j])
    next
      case F2: False
      with True "1.prems" "1.IH"(2)[of tidx' i'] show ?thesis
        by (simp add: partition_loop.simps[of key sp tidx i j])
    qed
  qed
qed

lemma Subdivide_split_None:
  "Subdivide_split U mesh s k = (s', None) \<Longrightarrow>
     bvhNode s' = bvhNode s \<and> nodesUsed s' = nodesUsed s"
  by (auto simp: Subdivide_split_def Let_def split: prod.splits if_splits)

lemma Subdivide_split_Some_slots:
  assumes "Subdivide_split U mesh s k = (s', Some (l, r))"
  shows "l = nodesUsed s \<and> r = nodesUsed s + 1 \<and> nodesUsed s' = nodesUsed s + 2"
  using assms
  by (auto simp: Subdivide_split_def Let_def node_upd_simps UpdateNodeBounds_simps
      split: prod.splits if_splits)

lemma Subdivide_split_Some_frame:
  assumes "Subdivide_split U mesh s k = (s', Some (l, r))" "i \<noteq> k" "i < nodesUsed s"
  shows "bvhNode s' i = bvhNode s i"
  using assms
  by (auto simp: Subdivide_split_def Let_def node_upd_simps UpdateNodeBounds_simps
      split: prod.splits if_splits)

lemma Subdivide_split_Some_less:
  assumes "Subdivide_split U mesh s k = (s', Some (l, r))"
  shows "BVHNode.triCount (bvhNode s' l) < BVHNode.triCount (bvhNode s k) \<and>
         BVHNode.triCount (bvhNode s' r) < BVHNode.triCount (bvhNode s k)"
  using assms
  by (auto simp: Subdivide_split_def Let_def node_upd_simps UpdateNodeBounds_simps
      split: prod.splits if_splits dest!: partition_loop_bounds)

function Subdivide :: "Uninit \<Rightarrow> Mesh \<Rightarrow> BVH \<Rightarrow> nat \<Rightarrow> BVH" where
  "Subdivide U mesh s nodeIdx =
     (case Subdivide_split U mesh s nodeIdx of
        (s', None) \<Rightarrow> s'
      | (s', Some (leftChildIdx, rightChildIdx)) \<Rightarrow>
          Subdivide U mesh (Subdivide U mesh s' leftChildIdx) rightChildIdx)"
  by pat_completeness auto

lemma Subdivide_frame_dom:
  assumes "Subdivide_dom (U, mesh, s, k)"
  shows "nodesUsed s \<le> nodesUsed (Subdivide U mesh s k) \<and>
         (\<forall>i. i \<noteq> k \<longrightarrow> i < nodesUsed s \<longrightarrow> bvhNode (Subdivide U mesh s k) i = bvhNode s i)"
  using assms
proof (induction rule: Subdivide.pinduct)
  case (1 U mesh s k)
  obtain s' c where sp: "Subdivide_split U mesh s k = (s', c)"
    by (cases "Subdivide_split U mesh s k") auto
  show ?case
  proof (cases c)
    case None
    with sp "1.hyps" have "Subdivide U mesh s k = s'"
      by (simp add: Subdivide.psimps)
    with sp None Subdivide_split_None[of U mesh s k s'] show ?thesis by simp
  next
    case (Some lr)
    obtain l r where lr: "lr = (l, r)" by (cases lr) auto
    have sp': "Subdivide_split U mesh s k = (s', Some (l, r))" using sp Some lr by simp
    have eq: "Subdivide U mesh s k = Subdivide U mesh (Subdivide U mesh s' l) r"
      using sp' "1.hyps" by (simp add: Subdivide.psimps)
    note slots = Subdivide_split_Some_slots[OF sp']
    have ih1: "nodesUsed s' \<le> nodesUsed (Subdivide U mesh s' l) \<and>
         (\<forall>i. i \<noteq> l \<longrightarrow> i < nodesUsed s' \<longrightarrow> bvhNode (Subdivide U mesh s' l) i = bvhNode s' i)"
      using "1.IH"(1)[OF sp[symmetric] Some lr[symmetric]] .
    have ih2: "nodesUsed (Subdivide U mesh s' l) \<le> nodesUsed (Subdivide U mesh s k) \<and>
         (\<forall>i. i \<noteq> r \<longrightarrow> i < nodesUsed (Subdivide U mesh s' l) \<longrightarrow>
            bvhNode (Subdivide U mesh s k) i = bvhNode (Subdivide U mesh s' l) i)"
      unfolding eq using "1.IH"(2)[OF sp[symmetric] Some lr[symmetric]] .
    have "nodesUsed s \<le> nodesUsed (Subdivide U mesh s k)"
      using slots ih1 ih2 by linarith
    moreover have "bvhNode (Subdivide U mesh s k) i = bvhNode s i"
      if "i \<noteq> k" "i < nodesUsed s" for i
    proof -
      have a: "bvhNode s' i = bvhNode s i"
        using Subdivide_split_Some_frame[OF sp' that] .
      have b: "bvhNode (Subdivide U mesh s' l) i = bvhNode s' i"
        using ih1 slots that by simp
      have c: "bvhNode (Subdivide U mesh s k) i = bvhNode (Subdivide U mesh s' l) i"
        using ih2 ih1 slots that by simp
      show ?thesis using a b c by simp
    qed
    ultimately show ?thesis by blast
  qed
qed

termination Subdivide
proof (relation "measure (\<lambda>(U, mesh, s, k). BVHNode.triCount (bvhNode s k))", goal_cases)
  case 1
  show ?case by simp
next
  case (2 U mesh s k s' c lr l r)
  then have "Subdivide_split U mesh s k = (s', Some (l, r))" by simp
  from Subdivide_split_Some_less[OF this] show ?case by simp
next
  case (3 U mesh s k s' c lr l r)
  then have sp: "Subdivide_split U mesh s k = (s', Some (l, r))" by simp
  note slots = Subdivide_split_Some_slots[OF sp]
  from 3 have "bvhNode (Subdivide U mesh s' l) r = bvhNode s' r"
    using Subdivide_frame_dom[of U mesh s' l] slots by simp
  with Subdivide_split_Some_less[OF sp] show ?case by simp
qed

declare Subdivide.simps [simp del]

lemma Subdivide_Keep:
  "Subdivide_split U mesh s k = (s', None) \<Longrightarrow> Subdivide U mesh s k = s'"
  by (simp add: Subdivide.simps[of U mesh s k])

lemma Subdivide_Split:
  "Subdivide_split U mesh s k = (s', Some (l, r)) \<Longrightarrow>
     Subdivide U mesh s k = Subdivide U mesh (Subdivide U mesh s' l) r"
  by (simp add: Subdivide.simps[of U mesh s k])

lemma Subdivide_split_induct [case_names Keep Split]:
  assumes keep: "\<And>U mesh s k s'. Subdivide_split U mesh s k = (s', None) \<Longrightarrow> P U mesh s k"
    and split: "\<And>U mesh s k s' l r. Subdivide_split U mesh s k = (s', Some (l, r)) \<Longrightarrow>
                  P U mesh s' l \<Longrightarrow> P U mesh (Subdivide U mesh s' l) r \<Longrightarrow> P U mesh s k"
  shows "P U mesh s k"
proof (induction U mesh s k rule: Subdivide.induct)
  case (1 U mesh s k)
  obtain s' c where sp: "Subdivide_split U mesh s k = (s', c)"
    by (cases "Subdivide_split U mesh s k") auto
  show ?case
  proof (cases c)
    case None
    with sp have "Subdivide_split U mesh s k = (s', None)" by simp
    then show ?thesis by (rule keep)
  next
    case (Some lr)
    obtain l r where lr: "lr = (l, r)" by (cases lr) auto
    have sp': "Subdivide_split U mesh s k = (s', Some (l, r))" using sp Some lr by simp
    show ?thesis
      using split[OF sp' "1.IH"(1)[OF sp[symmetric] Some lr[symmetric]]
                        "1.IH"(2)[OF sp[symmetric] Some lr[symmetric]]] .
  qed
qed

lemma Subdivide_frame:
  "nodesUsed s \<le> nodesUsed (Subdivide U mesh s k) \<and>
   (\<forall>i. i \<noteq> k \<longrightarrow> i < nodesUsed s \<longrightarrow> bvhNode (Subdivide U mesh s k) i = bvhNode s i)"
proof (induction U mesh s k rule: Subdivide_split_induct)
  case (Keep U mesh s k s')
  then show ?case using Subdivide_split_None[of U mesh s k s'] by (simp add: Subdivide_Keep)
next
  case (Split U mesh s k s' l r)
  note slots = Subdivide_split_Some_slots[OF Split(1)]
  note eq = Subdivide_Split[OF Split(1)]
  have "nodesUsed s \<le> nodesUsed (Subdivide U mesh s k)"
    unfolding eq using slots Split(2,3) by linarith
  moreover have "bvhNode (Subdivide U mesh s k) i = bvhNode s i"
    if "i \<noteq> k" "i < nodesUsed s" for i
  proof -
    have a: "bvhNode s' i = bvhNode s i"
      using Subdivide_split_Some_frame[OF Split(1) that] .
    have b: "bvhNode (Subdivide U mesh s' l) i = bvhNode s' i"
      using Split(2) slots that by simp
    have c: "bvhNode (Subdivide U mesh s k) i = bvhNode (Subdivide U mesh s' l) i"
      unfolding eq using Split(2,3) slots that by simp
    show ?thesis using a b c by simp
  qed
  ultimately show ?case by blast
qed

text \<open>A split, for a node in use, spelled out.\<close>

lemma Subdivide_split_Some_shape:
  assumes sp: "Subdivide_split U mesh s k = (s', Some (l, r))" and k: "k < nodesUsed s"
  shows "\<exists>lc. 0 < lc \<and> lc < BVHNode.triCount (bvhNode s k) \<and>
     bvhNode s' l = \<lparr>aabbMin = fst (range_bounds mesh (triIdx s') (leftFirst (bvhNode s k)) lc),
                     leftFirst = leftFirst (bvhNode s k),
                     aabbMax = snd (range_bounds mesh (triIdx s') (leftFirst (bvhNode s k)) lc),
                     triCount = lc\<rparr> \<and>
     bvhNode s' r = \<lparr>aabbMin = fst (range_bounds mesh (triIdx s') (leftFirst (bvhNode s k) + lc)
                                   (BVHNode.triCount (bvhNode s k) - lc)),
                     leftFirst = leftFirst (bvhNode s k) + lc,
                     aabbMax = snd (range_bounds mesh (triIdx s') (leftFirst (bvhNode s k) + lc)
                                   (BVHNode.triCount (bvhNode s k) - lc)),
                     triCount = BVHNode.triCount (bvhNode s k) - lc\<rparr> \<and>
     bvhNode s' k = (bvhNode s k)\<lparr>leftFirst := l, triCount := 0\<rparr>"
proof -
  let ?node = "bvhNode s k"
  obtain cost axis spl where fb: "FindBestSplitPlane mesh (triIdx s) ?node (uninit_axis U k) (uninit_splitPos U k) = (cost, axis, spl)"
    by (cases "FindBestSplitPlane mesh (triIdx s) ?node (uninit_axis U k) (uninit_splitPos U k)") auto
  obtain tidx i where pl: "partition_loop (\<lambda>t. centroid_at U mesh t axis) spl (triIdx s)
      (int (leftFirst ?node)) (int (leftFirst ?node) + int (BVHNode.triCount ?node) - 1) = (tidx, i)"
    by (cases "partition_loop (\<lambda>t. centroid_at U mesh t axis) spl (triIdx s)
      (int (leftFirst ?node)) (int (leftFirst ?node) + int (BVHNode.triCount ?node) - 1)") auto
  have bnd: "int (leftFirst ?node) \<le> i \<and> i \<le> int (leftFirst ?node) + int (BVHNode.triCount ?node)"
    using partition_loop_bounds[OF pl] by simp
  define lc where "lc = nat (i - int (leftFirst ?node))"
  have i_eq: "nat i = leftFirst ?node + lc" unfolding lc_def using bnd by arith
  from sp fb pl have ne: "i - int (leftFirst ?node) \<noteq> 0" "i - int (leftFirst ?node) \<noteq> int (BVHNode.triCount ?node)"
    by (auto simp: Subdivide_split_def Let_def split: if_splits)
  have lc: "0 < lc" "lc < BVHNode.triCount ?node" using ne bnd by (auto simp: lc_def)
  have lr: "l = nodesUsed s" "r = nodesUsed s + 1" using Subdivide_split_Some_slots[OF sp] by auto
  have kl: "k \<noteq> l" "k \<noteq> r" "l \<noteq> r" using k lr by auto
  from sp fb have nc: "\<not> CalculateNodeCost ?node \<le> cost"
    by (auto simp: Subdivide_split_def Let_def split: if_splits)
  from sp fb pl ne nc have s': "s' =
      UpdateNodeBounds mesh r (UpdateNodeBounds mesh l
       (node_upd k (\<lambda>n. n\<lparr>triCount := 0\<rparr>) (node_upd k (\<lambda>n. n\<lparr>leftFirst := l\<rparr>)
        (node_upd r (\<lambda>n. n\<lparr>triCount := BVHNode.triCount ?node - lc\<rparr>)
         (node_upd r (\<lambda>n. n\<lparr>leftFirst := nat i\<rparr>)
          (node_upd l (\<lambda>n. n\<lparr>triCount := lc\<rparr>)
           (node_upd l (\<lambda>n. n\<lparr>leftFirst := leftFirst ?node\<rparr>)
             (s\<lparr>triIdx := tidx, nodesUsed := nodesUsed s + 2\<rparr>))))))))"
    using kl lr
    by (simp add: Subdivide_split_def Let_def node_upd_simps lc_def)
  have t': "triIdx s' = tidx" by (simp add: s' UpdateNodeBounds_simps node_upd_simps)
  have "bvhNode s' l = \<lparr>aabbMin = fst (range_bounds mesh (triIdx s') (leftFirst ?node) lc),
                     leftFirst = leftFirst ?node,
                     aabbMax = snd (range_bounds mesh (triIdx s') (leftFirst ?node) lc),
                     triCount = lc\<rparr>"
    unfolding t' using kl
    by (simp add: s' UpdateNodeBounds_def Let_def node_upd_simps)
  moreover have "bvhNode s' r = \<lparr>aabbMin = fst (range_bounds mesh (triIdx s') (leftFirst ?node + lc)
                                   (BVHNode.triCount ?node - lc)),
                     leftFirst = leftFirst ?node + lc,
                     aabbMax = snd (range_bounds mesh (triIdx s') (leftFirst ?node + lc)
                                   (BVHNode.triCount ?node - lc)),
                     triCount = BVHNode.triCount ?node - lc\<rparr>"
    unfolding t' using kl
    by (simp add: s' UpdateNodeBounds_def Let_def node_upd_simps i_eq)
  moreover have "bvhNode s' k = ?node\<lparr>leftFirst := l, triCount := 0\<rparr>"
    using kl by (simp add: s' UpdateNodeBounds_def Let_def node_upd_simps)
  ultimately show ?thesis using lc by blast
qed

fun Subdivide_depth :: "nat \<Rightarrow> Uninit \<Rightarrow> Mesh \<Rightarrow> BVH \<Rightarrow> nat \<Rightarrow> BVH option" where
  "Subdivide_depth 0 U mesh s nodeIdx = None"
| "Subdivide_depth (Suc d) U mesh s nodeIdx =
     (case Subdivide_split U mesh s nodeIdx of
        (s', None) \<Rightarrow> Some s'
      | (s', Some (leftChildIdx, rightChildIdx)) \<Rightarrow>
          (case Subdivide_depth d U mesh s' leftChildIdx of
             None \<Rightarrow> None
           | Some s'' \<Rightarrow> Subdivide_depth d U mesh s'' rightChildIdx))"

lemma Subdivide_depth_enough:
  "BVHNode.triCount (bvhNode s k) \<le> d \<Longrightarrow>
     Subdivide_depth (Suc d) U mesh s k = Some (Subdivide U mesh s k)"
proof (induction d arbitrary: s k)
  case 0
  obtain s' c where sp: "Subdivide_split U mesh s k = (s', c)"
    by (cases "Subdivide_split U mesh s k") auto
  show ?case
  proof (cases c)
    case None
    with sp show ?thesis by (simp add: Subdivide_Keep)
  next
    case (Some lr)
    obtain l r where lr: "lr = (l, r)" by (cases lr) auto
    have sp': "Subdivide_split U mesh s k = (s', Some (l, r))" using sp Some lr by simp
    from Subdivide_split_Some_less[OF sp'] 0 show ?thesis by simp
  qed
next
  case (Suc d)
  obtain s' c where sp: "Subdivide_split U mesh s k = (s', c)"
    by (cases "Subdivide_split U mesh s k") auto
  show ?case
  proof (cases c)
    case None
    with sp show ?thesis by (simp add: Subdivide_Keep)
  next
    case (Some lr)
    obtain l r where lr: "lr = (l, r)" by (cases lr) auto
    have sp': "Subdivide_split U mesh s k = (s', Some (l, r))" using sp Some lr by simp
    note less = Subdivide_split_Some_less[OF sp']
    note slots = Subdivide_split_Some_slots[OF sp']
    have l: "Subdivide_depth (Suc d) U mesh s' l = Some (Subdivide U mesh s' l)"
      using Suc.IH[of s' l] less Suc.prems by simp
    have "bvhNode (Subdivide U mesh s' l) r = bvhNode s' r"
      using Subdivide_frame[of s' U mesh l] slots by simp
    then have r: "Subdivide_depth (Suc d) U mesh (Subdivide U mesh s' l) r
                = Some (Subdivide U mesh (Subdivide U mesh s' l) r)"
      using Suc.IH[of "Subdivide U mesh s' l" r] less Suc.prems by simp
    show ?thesis
      using sp' l r Subdivide_Split[OF sp'] by (simp del: Subdivide_depth.simps add: Subdivide_depth.simps(2)[of "Suc d"])
  qed
qed


subsection \<open>Build\<close>

text \<open>
  \<^verbatim>\<open>BVH::Build\<close> writes the centroids into the mesh and builds the tree; the result is the
  mesh and the object as the call leaves them. The object before the call is what the
  constructor allocated (its contents are whatever the memory held).
\<close>

definition Build :: "Uninit \<Rightarrow> Mesh \<Rightarrow> BVH \<Rightarrow> Mesh \<times> BVH" where
  "Build U mesh s =
     (let s1 = s\<lparr>nodesUsed := 2\<rparr>;
          s2 = s1\<lparr>triIdx := fold (\<lambda>i tidx. tidx(i := i)) [0..<Mesh.triCount mesh] (triIdx s1)\<rparr>;
          mesh1 = mesh\<lparr>tri :=
                    fold (\<lambda>i tr. tr(i := (tr i)\<lparr>centroid :=
                            f3_scale (f3_add (f3_add (vertex0 (tr i)) (vertex1 (tr i)))
                                        (vertex2 (tr i))) (3333 / 10000)\<rparr>))
                      [0..<Mesh.triCount mesh] (tri mesh)\<rparr>;
          s3 = node_upd 0 (\<lambda>n. n\<lparr>leftFirst := 0, triCount := Mesh.triCount mesh\<rparr>) s2;
          s4 = UpdateNodeBounds mesh1 0 s3
      in (mesh1, Subdivide U mesh1 s4 0))"

subsection \<open>Refit\<close>

definition Refit_node :: "Mesh \<Rightarrow> nat \<Rightarrow> BVH \<Rightarrow> BVH" where
  "Refit_node mesh i s =
     (if i \<noteq> 1
      then let node = bvhNode s i
           in if isLeaf node then UpdateNodeBounds mesh i s
              else
                let leftChild = bvhNode s (leftFirst node);
                    rightChild = bvhNode s (leftFirst node + 1)
                in node_upd i (\<lambda>n. n\<lparr>aabbMin := fminf (aabbMin leftChild) (aabbMin rightChild),
                                      aabbMax := fmaxf (aabbMax leftChild) (aabbMax rightChild)\<rparr>) s
      else s)"

definition Refit :: "Mesh \<Rightarrow> BVH \<Rightarrow> BVH" where
  "Refit mesh s = fold (Refit_node mesh) (rev [0..<nodesUsed s]) s"

subsection \<open>Intersect\<close>

definition IntersectAABB :: "Ray \<Rightarrow> float3 \<Rightarrow> float3 \<Rightarrow> real" where
  "IntersectAABB ray bmn bmx =
     (let tx1 = (xc bmn - xc (ray_O ray)) * xc (ray_rD ray);
          tx2 = (xc bmx - xc (ray_O ray)) * xc (ray_rD ray);
          tmin = min tx1 tx2; tmax = max tx1 tx2;
          ty1 = (yc bmn - yc (ray_O ray)) * yc (ray_rD ray);
          ty2 = (yc bmx - yc (ray_O ray)) * yc (ray_rD ray);
          tmin = max tmin (min ty1 ty2); tmax = min tmax (max ty1 ty2);
          tz1 = (zc bmn - zc (ray_O ray)) * zc (ray_rD ray);
          tz2 = (zc bmx - zc (ray_O ray)) * zc (ray_rD ray);
          tmin = max tmin (min tz1 tz2); tmax = min tmax (max tz1 tz2)
      in if tmax \<ge> tmin \<and> tmin < hit_t (hit ray) \<and> tmax > 0 then tmin else inf30)"

text \<open>The loop over the triangles of a leaf.\<close>

definition leaf_tris :: "Mesh \<Rightarrow> BVH \<Rightarrow> 32 word \<Rightarrow> BVHNode \<Rightarrow> Ray \<Rightarrow> Ray" where
  "leaf_tris mesh s instanceIdx node ray =
     fold (\<lambda>i r.
             let ip = push_bit 20 instanceIdx + word_of_nat (triIdx s (leftFirst node + i))
             in IntersectTri r (tri mesh (unat (ip AND 0xfffff))) ip)
       [0..<BVHNode.triCount node] ray"

text \<open>
  The traversal loop has no bound of its own, so the model counts its iterations: the
  first argument is the number of iterations allowed, and \<open>OutOfFuel\<close> is the result when
  they are used up. Node pointers are node indices. The stack is the list of the entries
  below \<^verbatim>\<open>stackPtr\<close>, the top first; the array has 64 entries, and a push onto a full one
  writes past it, which is \<open>StackOverflow\<close>.
\<close>

datatype traversal = Finished Ray | StackOverflow | OutOfFuel

fun Intersect_loop ::
  "nat \<Rightarrow> Mesh \<Rightarrow> BVH \<Rightarrow> 32 word \<Rightarrow> nat \<Rightarrow> nat list \<Rightarrow> Ray \<Rightarrow> traversal" where
  "Intersect_loop 0 mesh s instanceIdx node stack ray = OutOfFuel"
| "Intersect_loop (Suc n) mesh s instanceIdx node stack ray =
     (if isLeaf (bvhNode s node)
      then let ray' = leaf_tris mesh s instanceIdx (bvhNode s node) ray
           in (case stack of
                 [] \<Rightarrow> Finished ray'
               | nd # rest \<Rightarrow> Intersect_loop n mesh s instanceIdx nd rest ray')
      else
        let child1 = leftFirst (bvhNode s node);
            child2 = leftFirst (bvhNode s node) + 1;
            dist1 = IntersectAABB ray (aabbMin (bvhNode s child1)) (aabbMax (bvhNode s child1));
            dist2 = IntersectAABB ray (aabbMin (bvhNode s child2)) (aabbMax (bvhNode s child2));
            (dist1, dist2, child1, child2) =
               (if dist1 > dist2 then (dist2, dist1, child2, child1)
                else (dist1, dist2, child1, child2))
        in if dist1 = inf30
           then (case stack of
                   [] \<Rightarrow> Finished ray
                 | nd # rest \<Rightarrow> Intersect_loop n mesh s instanceIdx nd rest ray)
           else if dist2 \<noteq> inf30
                then if length stack \<ge> 64 then StackOverflow
                     else Intersect_loop n mesh s instanceIdx child1 (child2 # stack) ray
                else Intersect_loop n mesh s instanceIdx child1 stack ray)"

definition Intersect :: "nat \<Rightarrow> Mesh \<Rightarrow> BVH \<Rightarrow> Ray \<Rightarrow> 32 word \<Rightarrow> traversal" where
  "Intersect fuel mesh s ray instanceIdx = Intersect_loop fuel mesh s instanceIdx 0 [] ray"

section \<open>Concrete inputs\<close>

text \<open>
  Memory that holds zeros, and a mesh of two overlapping triangles in the plane \<open>z = 0\<close>
  with a ray that meets both in the same point.
\<close>

definition P3 :: "real \<Rightarrow> real \<Rightarrow> real \<Rightarrow> float3" where
  "P3 a b c = \<lparr>xc = a, yc = b, zc = c\<rparr>"

definition zeroNode :: BVHNode where
  "zeroNode = \<lparr>aabbMin = P3 0 0 0, leftFirst = 0, aabbMax = P3 0 0 0, triCount = 0\<rparr>"

definition zeroBVH :: BVH where
  "zeroBVH = \<lparr>bvhNode = (\<lambda>i. zeroNode), triIdx = (\<lambda>i. 0), nodesUsed = 0\<rparr>"

definition zeroU :: Uninit where
  "zeroU = \<lparr>uninit_axis = (\<lambda>k. 0), uninit_splitPos = (\<lambda>k. 0), oob_cell = (\<lambda>k a. 0)\<rparr>"

definition tieTri0 :: Tri where
  "tieTri0 = \<lparr>vertex0 = P3 1 0 0, vertex1 = P3 3 0 0, vertex2 = P3 1 1 0, centroid = P3 0 0 0\<rparr>"

definition tieTri1 :: Tri where
  "tieTri1 = \<lparr>vertex0 = P3 0 0 0, vertex1 = P3 2 0 0, vertex2 = P3 2 1 0, centroid = P3 0 0 0\<rparr>"

definition tieMesh :: Mesh where
  "tieMesh = \<lparr>tri = (\<lambda>i. if i = 0 then tieTri0 else tieTri1), triCount = 2\<rparr>"

definition tieRay :: Ray where
  "tieRay = \<lparr>ray_O = P3 (1/2) (-3/4) (-1), ray_D = P3 1 1 1, ray_rD = P3 1 1 1,
     hit = \<lparr>hit_t = inf30, hit_u = 0, hit_v = 0, instPrim = 0\<rparr>\<rparr>"

definition c8Mesh :: Mesh where
  "c8Mesh = \<lparr>tri = (\<lambda>i. \<lparr>vertex0 = P3 0 0 0, vertex1 = P3 3 0 0, vertex2 = P3 0 3 0,
                           centroid = P3 0 0 0\<rparr>), triCount = 1\<rparr>"

section \<open>The node pool\<close>

text \<open>The part of \<^verbatim>\<open>Build\<close> before the call of \<^verbatim>\<open>Subdivide\<close>.\<close>

definition Build_init :: "Mesh \<Rightarrow> BVH \<Rightarrow> Mesh \<times> BVH" where
  "Build_init mesh s =
     (let s1 = s\<lparr>nodesUsed := 2\<rparr>;
          s2 = s1\<lparr>triIdx := fold (\<lambda>i tidx. tidx(i := i)) [0..<Mesh.triCount mesh] (triIdx s1)\<rparr>;
          mesh1 = mesh\<lparr>tri :=
                    fold (\<lambda>i tr. tr(i := (tr i)\<lparr>centroid :=
                            f3_scale (f3_add (f3_add (vertex0 (tr i)) (vertex1 (tr i)))
                                        (vertex2 (tr i))) (3333 / 10000)\<rparr>))
                      [0..<Mesh.triCount mesh] (tri mesh)\<rparr>;
          s3 = node_upd 0 (\<lambda>n. n\<lparr>leftFirst := 0, triCount := Mesh.triCount mesh\<rparr>) s2;
          s4 = UpdateNodeBounds mesh1 0 s3
      in (mesh1, s4))"

lemma Subdivide_split_Some_frame3:
  assumes "Subdivide_split U mesh s k = (s', Some (l, r))" "i \<noteq> k" "i \<noteq> l" "i \<noteq> r"
  shows "bvhNode s' i = bvhNode s i"
  using assms
  by (auto simp: Subdivide_split_def Let_def node_upd_simps UpdateNodeBounds_simps
      split: prod.splits if_splits)

lemma Subdivide_nodesUsed:
  "k < nodesUsed s \<longrightarrow> 1 \<le> BVHNode.triCount (bvhNode s k) \<longrightarrow>
     (\<exists>m. nodesUsed (Subdivide U mesh s k) = nodesUsed s + 2 * m \<and>
          m + 1 \<le> BVHNode.triCount (bvhNode s k))"
proof (induction U mesh s k rule: Subdivide_split_induct)
  case (Keep U mesh s k s')
  then show ?case using Subdivide_split_None[of U mesh s k s'] by (simp add: Subdivide_Keep)
next
  case (Split U mesh s k s' l r)
  show ?case
  proof (intro impI)
    assume k: "k < nodesUsed s" and c: "1 \<le> BVHNode.triCount (bvhNode s k)"
    note slots = Subdivide_split_Some_slots[OF Split(1)]
    note eq = Subdivide_Split[OF Split(1)]
    from Subdivide_split_Some_shape[OF Split(1) k] obtain lc where
      lc: "0 < lc" "lc < BVHNode.triCount (bvhNode s k)"
      and nl: "BVHNode.triCount (bvhNode s' l) = lc"
      and nr: "BVHNode.triCount (bvhNode s' r) = BVHNode.triCount (bvhNode s k) - lc"
      by auto
    from Split(2) slots nl lc obtain m1 where
      m1: "nodesUsed (Subdivide U mesh s' l) = nodesUsed s' + 2 * m1" "m1 + 1 \<le> lc"
      by auto
    have fr: "bvhNode (Subdivide U mesh s' l) r = bvhNode s' r"
      using Subdivide_frame[of s' U mesh l] slots by simp
    from Split(3) slots nr lc fr m1 obtain m2 where
      m2: "nodesUsed (Subdivide U mesh s k) = nodesUsed (Subdivide U mesh s' l) + 2 * m2"
          "m2 + 1 \<le> BVHNode.triCount (bvhNode s k) - lc"
      unfolding eq by auto
    have "nodesUsed (Subdivide U mesh s k) = nodesUsed s + 2 * (m1 + m2 + 1)"
      using m1 m2 slots by simp
    moreover have "(m1 + m2 + 1) + 1 \<le> BVHNode.triCount (bvhNode s k)"
      using m1 m2 lc by linarith
    ultimately show "\<exists>m. nodesUsed (Subdivide U mesh s k) = nodesUsed s + 2 * m \<and>
          m + 1 \<le> BVHNode.triCount (bvhNode s k)" by blast
  qed
qed

lemma Subdivide_beyond:
  "k < nodesUsed s \<longrightarrow>
     (\<forall>i. nodesUsed (Subdivide U mesh s k) \<le> i \<longrightarrow> bvhNode (Subdivide U mesh s k) i = bvhNode s i)"
proof (induction U mesh s k rule: Subdivide_split_induct)
  case (Keep U mesh s k s')
  then show ?case using Subdivide_split_None[of U mesh s k s'] by (simp add: Subdivide_Keep)
next
  case (Split U mesh s k s' l r)
  show ?case
  proof (intro impI allI)
    fix i
    assume k: "k < nodesUsed s" and i: "nodesUsed (Subdivide U mesh s k) \<le> i"
    note slots = Subdivide_split_Some_slots[OF Split(1)]
    note eq = Subdivide_Split[OF Split(1)]
    have mono1: "nodesUsed s' \<le> nodesUsed (Subdivide U mesh s' l)"
      using Subdivide_frame[of s' U mesh l] by simp
    have mono2: "nodesUsed (Subdivide U mesh s' l) \<le> nodesUsed (Subdivide U mesh s k)"
      unfolding eq using Subdivide_frame[of "Subdivide U mesh s' l" U mesh r] by simp
    have a: "bvhNode (Subdivide U mesh s k) i = bvhNode (Subdivide U mesh s' l) i"
      using Split(3) slots mono1 i unfolding eq by simp
    have b: "bvhNode (Subdivide U mesh s' l) i = bvhNode s' i"
      using Split(2) slots mono2 i by simp
    have c: "bvhNode s' i = bvhNode s i"
      using Subdivide_split_Some_frame3[OF Split(1), of i] slots mono1 mono2 i k by simp
    show "bvhNode (Subdivide U mesh s k) i = bvhNode s i" using a b c by simp
  qed
qed

lemma fold_triIdx_init:
  "fold (\<lambda>i tidx. tidx(i := i)) [0..<n] f = (\<lambda>i. if i < n then i else f i)"
  by (induction n) (auto simp: fun_eq_iff)

lemma fold_centroid_init:
  "fold (\<lambda>i tr. tr(i := (tr i)\<lparr>centroid := g (tr i)\<rparr>)) [0..<n] f
     = (\<lambda>i. if i < n then (f i)\<lparr>centroid := g (f i)\<rparr> else f i)"
  by (induction n) (auto simp: fun_eq_iff)

lemma Build_eq: "Build U mesh s = (fst (Build_init mesh s), Subdivide U (fst (Build_init mesh s)) (snd (Build_init mesh s)) 0)"
  by (simp add: Build_def Build_init_def Let_def)

lemma Build_init_simps:
  "nodesUsed (snd (Build_init mesh s)) = 2"
  "triIdx (snd (Build_init mesh s)) = (\<lambda>i. if i < Mesh.triCount mesh then i else triIdx s i)"
  "leftFirst (bvhNode (snd (Build_init mesh s)) 0) = 0"
  "BVHNode.triCount (bvhNode (snd (Build_init mesh s)) 0) = Mesh.triCount mesh"
  "i \<noteq> 0 \<Longrightarrow> bvhNode (snd (Build_init mesh s)) i = bvhNode s i"
  "Mesh.triCount (fst (Build_init mesh s)) = Mesh.triCount mesh"
  "tri (fst (Build_init mesh s)) = (\<lambda>i. if i < Mesh.triCount mesh
      then (tri mesh i)\<lparr>centroid := f3_scale (f3_add (f3_add (vertex0 (tri mesh i)) (vertex1 (tri mesh i)))
                                        (vertex2 (tri mesh i))) (3333 / 10000)\<rparr> else tri mesh i)"
  by (simp_all add: Build_init_def Let_def node_upd_simps UpdateNodeBounds_simps fold_triIdx_init
        fold_centroid_init[where g = "\<lambda>t. f3_scale (f3_add (f3_add (vertex0 t) (vertex1 t)) (vertex2 t))
           (3333 / 10000)"] cong: if_cong)

text \<open>
  C9. For every mesh with at least one triangle, after \<^verbatim>\<open>Build\<close> the watermark
  \<open>nodesUsed\<close> is at most \<open>2 * triCount\<close>, the size of the pool. It starts at 2 and grows by
  two for each split, so it is even; slot 1 and every slot at or past the watermark hold
  what they held before the call: nothing was written there.
\<close>

theorem Build_pool_bound:
  assumes "1 \<le> Mesh.triCount mesh"
  shows "2 \<le> nodesUsed (snd (Build U mesh s)) \<and> even (nodesUsed (snd (Build U mesh s))) \<and>
         nodesUsed (snd (Build U mesh s)) \<le> 2 * Mesh.triCount mesh \<and>
         (\<forall>i. i = 1 \<or> nodesUsed (snd (Build U mesh s)) \<le> i
               \<longrightarrow> bvhNode (snd (Build U mesh s)) i = bvhNode s i)"
proof -
  let ?m = "fst (Build_init mesh s)" and ?s = "snd (Build_init mesh s)"
  have eq: "snd (Build U mesh s) = Subdivide U ?m ?s 0" by (simp add: Build_eq)
  from Subdivide_nodesUsed[of 0 ?s U ?m] assms obtain m where
    m: "nodesUsed (Subdivide U ?m ?s 0) = 2 + 2 * m" "m + 1 \<le> Mesh.triCount mesh"
    by (auto simp: Build_init_simps)
  have one: "bvhNode (Subdivide U ?m ?s 0) 1 = bvhNode s 1"
    using Subdivide_frame[of ?s U ?m 0] by (simp add: Build_init_simps)
  have bey: "bvhNode (Subdivide U ?m ?s 0) i = bvhNode s i" if "nodesUsed (Subdivide U ?m ?s 0) \<le> i" for i
    using Subdivide_beyond[of 0 ?s U ?m] that m by (simp add: Build_init_simps)
  show ?thesis unfolding eq using m one bey by auto
qed


theorem Build_pool_bound_witness:
  "1 \<le> Mesh.triCount tieMesh \<and> 2 \<le> nodesUsed (snd (Build zeroU tieMesh zeroBVH)) \<and>
   nodesUsed (snd (Build zeroU tieMesh zeroBVH)) \<le> 4 \<and>
   bvhNode (snd (Build zeroU tieMesh zeroBVH)) 1 = zeroNode"
proof -
  have h: "1 \<le> Mesh.triCount tieMesh" by (simp add: tieMesh_def)
  from Build_pool_bound[OF h, of zeroU zeroBVH] show ?thesis
    by (simp add: tieMesh_def zeroBVH_def)
qed

section \<open>Termination of Subdivide\<close>

text \<open>
  C10. \<^verbatim>\<open>Subdivide\<close> terminates for every mesh: with a recursion depth of one more than
  the triangles of the node, the depth-counted recursion returns, and what it returns is
  the value of \<^verbatim>\<open>Subdivide\<close>. It recurses only after a partition with both sides non-empty:
  for a node in use, each of the two children has at least one triangle and fewer than
  the node, and the first recursive call leaves the count of the second child as it was.
\<close>

theorem Subdivide_terminates:
  "Subdivide_depth (Suc (BVHNode.triCount (bvhNode s k))) U mesh s k = Some (Subdivide U mesh s k) \<and>
   (k < nodesUsed s \<longrightarrow>
      (case Subdivide_split U mesh s k of
         (s', None) \<Rightarrow> Subdivide U mesh s k = s'
       | (s', Some (l, r)) \<Rightarrow>
           1 \<le> BVHNode.triCount (bvhNode s' l) \<and>
           BVHNode.triCount (bvhNode s' l) < BVHNode.triCount (bvhNode s k) \<and>
           1 \<le> BVHNode.triCount (bvhNode s' r) \<and>
           BVHNode.triCount (bvhNode s' r) < BVHNode.triCount (bvhNode s k) \<and>
           BVHNode.triCount (bvhNode (Subdivide U mesh s' l) r) = BVHNode.triCount (bvhNode s' r) \<and>
           Subdivide U mesh s k = Subdivide U mesh (Subdivide U mesh s' l) r))"
proof
  show "Subdivide_depth (Suc (BVHNode.triCount (bvhNode s k))) U mesh s k = Some (Subdivide U mesh s k)"
    by (rule Subdivide_depth_enough) simp
next
  show "k < nodesUsed s \<longrightarrow>
      (case Subdivide_split U mesh s k of
         (s', None) \<Rightarrow> Subdivide U mesh s k = s'
       | (s', Some (l, r)) \<Rightarrow>
           1 \<le> BVHNode.triCount (bvhNode s' l) \<and>
           BVHNode.triCount (bvhNode s' l) < BVHNode.triCount (bvhNode s k) \<and>
           1 \<le> BVHNode.triCount (bvhNode s' r) \<and>
           BVHNode.triCount (bvhNode s' r) < BVHNode.triCount (bvhNode s k) \<and>
           BVHNode.triCount (bvhNode (Subdivide U mesh s' l) r) = BVHNode.triCount (bvhNode s' r) \<and>
           Subdivide U mesh s k = Subdivide U mesh (Subdivide U mesh s' l) r)"
  proof
    assume k: "k < nodesUsed s"
    obtain s' c where sp: "Subdivide_split U mesh s k = (s', c)"
      by (cases "Subdivide_split U mesh s k") auto
    show "case Subdivide_split U mesh s k of
         (s', None) \<Rightarrow> Subdivide U mesh s k = s'
       | (s', Some (l, r)) \<Rightarrow>
           1 \<le> BVHNode.triCount (bvhNode s' l) \<and>
           BVHNode.triCount (bvhNode s' l) < BVHNode.triCount (bvhNode s k) \<and>
           1 \<le> BVHNode.triCount (bvhNode s' r) \<and>
           BVHNode.triCount (bvhNode s' r) < BVHNode.triCount (bvhNode s k) \<and>
           BVHNode.triCount (bvhNode (Subdivide U mesh s' l) r) = BVHNode.triCount (bvhNode s' r) \<and>
           Subdivide U mesh s k = Subdivide U mesh (Subdivide U mesh s' l) r"
    proof (cases c)
      case None
      with sp show ?thesis by (simp add: Subdivide_Keep)
    next
      case (Some lr)
      obtain l r where lr: "lr = (l, r)" by (cases lr) auto
      have sp': "Subdivide_split U mesh s k = (s', Some (l, r))" using sp Some lr by simp
      note slots = Subdivide_split_Some_slots[OF sp']
      from Subdivide_split_Some_shape[OF sp' k] obtain lc where
        lc: "0 < lc" "lc < BVHNode.triCount (bvhNode s k)"
        and nl: "BVHNode.triCount (bvhNode s' l) = lc"
        and nr: "BVHNode.triCount (bvhNode s' r) = BVHNode.triCount (bvhNode s k) - lc"
        by auto
      have fr: "bvhNode (Subdivide U mesh s' l) r = bvhNode s' r"
        using Subdivide_frame[of s' U mesh l] slots by simp
      show ?thesis
        using sp' lc nl nr fr Subdivide_Split[OF sp'] by simp
    qed
  qed
qed

text \<open>The root of the two-triangle mesh as \<^verbatim>\<open>Build\<close> hands it to \<^verbatim>\<open>Subdivide\<close>.\<close>

definition tieState :: BVH where
  "tieState = snd (Build_init tieMesh zeroBVH)"

theorem Subdivide_terminates_witness:
  "0 < nodesUsed tieState \<and>
   snd (Subdivide_split zeroU (fst (Build_init tieMesh zeroBVH)) tieState 0) = Some (2, 3) \<and>
   BVHNode.triCount (bvhNode tieState 0) = 2 \<and>
   BVHNode.triCount (bvhNode (fst (Subdivide_split zeroU (fst (Build_init tieMesh zeroBVH)) tieState 0)) 2) = 1 \<and>
   BVHNode.triCount (bvhNode (fst (Subdivide_split zeroU (fst (Build_init tieMesh zeroBVH)) tieState 0)) 3) = 1 \<and>
   Subdivide_depth 3 zeroU (fst (Build_init tieMesh zeroBVH)) tieState 0
     = Some (Subdivide zeroU (fst (Build_init tieMesh zeroBVH)) tieState 0)"
proof -
  let ?m = "fst (Build_init tieMesh zeroBVH)"
  have k: "0 < nodesUsed tieState" by (simp add: tieState_def Build_init_simps)
  have c: "BVHNode.triCount (bvhNode tieState 0) = 2"
    by (simp add: tieState_def Build_init_simps tieMesh_def)
  have sp: "snd (Subdivide_split zeroU ?m tieState 0) = Some (2, 3)"
    by code_simp
  obtain s' where s': "Subdivide_split zeroU ?m tieState 0 = (s', Some (2, 3))"
    using sp by (cases "Subdivide_split zeroU ?m tieState 0") auto
  from Subdivide_terminates[of tieState 0 zeroU ?m] k c s'
  have "Subdivide_depth 3 zeroU ?m tieState 0 = Some (Subdivide zeroU ?m tieState 0) \<and>
        1 \<le> BVHNode.triCount (bvhNode s' 2) \<and> BVHNode.triCount (bvhNode s' 2) < 2 \<and>
        1 \<le> BVHNode.triCount (bvhNode s' 3) \<and> BVHNode.triCount (bvhNode s' 3) < 2"
    by (simp add: numeral_3_eq_3)
  with k sp c s' show ?thesis by simp
qed

section \<open>Centroids\<close>

lemma Build_centroid:
  "i < Mesh.triCount mesh \<Longrightarrow>
     centroid (tri (fst (Build U mesh s)) i)
       = f3_scale (f3_add (f3_add (vertex0 (tri mesh i)) (vertex1 (tri mesh i)))
                    (vertex2 (tri mesh i))) (3333 / 10000)"
  by (simp add: Build_eq Build_init_simps)

text \<open>
  C8. At build start every triangle's centroid is recomputed as \<open>(v0 + v1 + v2) / 3\<close>. The
  code multiplies the sum by \<^verbatim>\<open>0.3333f\<close>: for the triangle (0,0,0), (3,0,0), (0,3,0) the
  stored centroid is (0.9999, 0.9999, 0), and a third of the sum is (1, 1, 0).
\<close>

theorem Build_centroid_off:
  "centroid (tri (fst (Build U c8Mesh s)) 0) = P3 (9999 / 10000) (9999 / 10000) 0 \<and>
   f3_scale (f3_add (f3_add (vertex0 (tri c8Mesh 0)) (vertex1 (tri c8Mesh 0)))
                    (vertex2 (tri c8Mesh 0))) (1 / 3) = P3 1 1 0 \<and>
   centroid (tri (fst (Build U c8Mesh s)) 0)
     \<noteq> f3_scale (f3_add (f3_add (vertex0 (tri c8Mesh 0)) (vertex1 (tri c8Mesh 0)))
                    (vertex2 (tri c8Mesh 0))) (1 / 3)"
  by (simp add: Build_centroid c8Mesh_def f3_scale_def f3_add_def P3_def)

section \<open>Boxes, the partition and the tree\<close>

subsection \<open>Boxes as minima and maxima over vertex sets\<close>

definition tri_pts :: "Mesh \<Rightarrow> nat \<Rightarrow> float3 set" where
  "tri_pts mesh t = {vertex0 (tri mesh t), vertex1 (tri mesh t), vertex2 (tri mesh t)}"

definition pts :: "Mesh \<Rightarrow> nat set \<Rightarrow> float3 set" where
  "pts mesh T = (\<Union>t\<in>T. tri_pts mesh t)"

definition lo_of :: "(float3 \<Rightarrow> real) \<Rightarrow> float3 set \<Rightarrow> real" where
  "lo_of f S = Min (insert inf30 (f ` S))"

definition hi_of :: "(float3 \<Rightarrow> real) \<Rightarrow> float3 set \<Rightarrow> real" where
  "hi_of f S = Max (insert (- inf30) (f ` S))"

definition box_of :: "float3 set \<Rightarrow> float3 \<times> float3" where
  "box_of S = (\<lparr>xc = lo_of xc S, yc = lo_of yc S, zc = lo_of zc S\<rparr>,
               \<lparr>xc = hi_of xc S, yc = hi_of yc S, zc = hi_of zc S\<rparr>)"

definition combine :: "float3 \<times> float3 \<Rightarrow> float3 \<times> float3 \<Rightarrow> float3 \<times> float3" where
  "combine a b = (fminf (fst a) (fst b), fmaxf (snd a) (snd b))"

lemma finite_pts: "finite T \<Longrightarrow> finite (pts mesh T)"
  by (simp add: pts_def tri_pts_def)

lemma lo_of_insert: "finite S \<Longrightarrow> lo_of f (insert p S) = min (lo_of f S) (f p)"
  by (simp add: lo_of_def insert_commute[of inf30] min.commute)

lemma hi_of_insert: "finite S \<Longrightarrow> hi_of f (insert p S) = max (hi_of f S) (f p)"
  by (simp add: hi_of_def insert_commute[of "- inf30"] max.commute)

lemma lo_of_Un: "finite S \<Longrightarrow> finite T \<Longrightarrow> lo_of f (S \<union> T) = min (lo_of f S) (lo_of f T)"
proof -
  assume fin: "finite S" "finite T"
  have "insert inf30 (f ` (S \<union> T)) = insert inf30 (f ` S) \<union> insert inf30 (f ` T)" by auto
  then show ?thesis using fin
    by (simp only: lo_of_def) (subst Min_Un, auto)
qed

lemma hi_of_Un: "finite S \<Longrightarrow> finite T \<Longrightarrow> hi_of f (S \<union> T) = max (hi_of f S) (hi_of f T)"
proof -
  assume fin: "finite S" "finite T"
  have "insert (- inf30) (f ` (S \<union> T)) = insert (- inf30) (f ` S) \<union> insert (- inf30) (f ` T)" by auto
  then show ?thesis using fin
    by (simp only: hi_of_def) (subst Max_Un, auto)
qed



lemma box_of_Un: "finite S \<Longrightarrow> finite T \<Longrightarrow> box_of (S \<union> T) = combine (box_of S) (box_of T)"
  by (simp add: box_of_def combine_def fminf_def fmaxf_def lo_of_Un hi_of_Un)

lemma box_of_empty: "box_of {} = (float3_splat inf30, float3_splat (- inf30))"
  by (simp add: box_of_def lo_of_def hi_of_def float3_splat_def)

lemma grow_tri_box_of:
  "finite S \<Longrightarrow> grow_tri (tri mesh t) (box_of S) = box_of (S \<union> tri_pts mesh t)"
  by (simp add: grow_tri_def box_of_def tri_pts_def fminf_def fmaxf_def lo_of_insert hi_of_insert
      Un_insert_right min.assoc max.assoc min.commute max.commute min.left_commute max.left_commute)

lemma range_bounds_Suc:
  "range_bounds mesh tidx first (Suc n)
     = grow_tri (tri mesh (tidx (first + n))) (range_bounds mesh tidx first n)"
  by (simp add: range_bounds_def)

lemma range_bounds_box_of:
  "range_bounds mesh tidx first n = box_of (pts mesh (tidx ` {first..<first + n}))"
proof (induction n)
  case 0
  then show ?case by (simp add: range_bounds_def box_of_empty pts_def)
next
  case (Suc n)
  have "{first..<first + Suc n} = insert (first + n) {first..<first + n}" by auto
  then have "pts mesh (tidx ` {first..<first + Suc n})
      = pts mesh (tidx ` {first..<first + n}) \<union> tri_pts mesh (tidx (first + n))"
    by (auto simp: pts_def)
  then show ?case
    by (simp add: range_bounds_Suc Suc.IH grow_tri_box_of finite_pts del: upt_Suc)
qed

lemma range_bounds_cong:
  "tidx' ` {first..<first + n} = tidx ` {first..<first + n} \<Longrightarrow>
     range_bounds mesh tidx' first n = range_bounds mesh tidx first n"
  by (simp add: range_bounds_box_of)

lemma range_bounds_split:
  assumes "lc \<le> c"
  shows "range_bounds mesh tidx first c
     = combine (range_bounds mesh tidx first lc) (range_bounds mesh tidx (first + lc) (c - lc))"
proof -
  have "{first..<first + c} = {first..<first + lc} \<union> {first + lc..<first + lc + (c - lc)}"
    using assms by auto
  then have "pts mesh (tidx ` {first..<first + c})
     = pts mesh (tidx ` {first..<first + lc}) \<union> pts mesh (tidx ` {first + lc..<first + lc + (c - lc)})"
    by (simp add: pts_def image_Un)
  then show ?thesis
    by (simp add: range_bounds_box_of box_of_Un finite_pts)
qed

subsection \<open>The partition keeps the triangles of the range\<close>

definition irange :: "int \<Rightarrow> int \<Rightarrow> nat set" where
  "irange i j = {k. i \<le> int k \<and> int k \<le> j}"

lemma partition_loop_perm:
  "partition_loop key sp tidx i j = (tidx', i') \<Longrightarrow> 0 \<le> i \<Longrightarrow>
     tidx' ` irange i j = tidx ` irange i j \<and> (\<forall>k. k \<notin> irange i j \<longrightarrow> tidx' k = tidx k)"
proof (induction key sp tidx i j arbitrary: tidx' i' rule: partition_loop.induct)
  case (1 key sp tidx i j)
  show ?case
  proof (cases "i \<le> j")
    case False
    with "1.prems" show ?thesis by (simp add: partition_loop.simps[of key sp tidx i j])
  next
    case True
    show ?thesis
    proof (cases "key (tidx (nat i)) < sp")
      case T2: True
      with True "1.prems" have pl: "partition_loop key sp tidx (i + 1) j = (tidx', i')"
        by (simp add: partition_loop.simps[of key sp tidx i j])
      from "1.IH"(1)[OF True T2 pl] "1.prems"
      have ih: "tidx' ` irange (i + 1) j = tidx ` irange (i + 1) j"
               "\<forall>k. k \<notin> irange (i + 1) j \<longrightarrow> tidx' k = tidx k" by auto
      have split: "irange i j = insert (nat i) (irange (i + 1) j)" "nat i \<notin> irange (i + 1) j"
        using True "1.prems" by (auto simp: irange_def)
      have "tidx' (nat i) = tidx (nat i)" using ih(2) split(2) by simp
      then have "tidx' ` irange i j = tidx ` irange i j"
        using ih(1) by (simp add: split(1))
      moreover have "\<forall>k. k \<notin> irange i j \<longrightarrow> tidx' k = tidx k"
        using ih(2) split(1) by auto
      ultimately show ?thesis by simp
    next
      case F2: False
      let ?sw = "swap_at tidx (nat i) (nat j)"
      from F2 True "1.prems" have pl: "partition_loop key sp ?sw i (j - 1) = (tidx', i')"
        by (simp add: partition_loop.simps[of key sp tidx i j])
      from "1.IH"(2)[OF True F2 pl] "1.prems"
      have ih: "tidx' ` irange i (j - 1) = ?sw ` irange i (j - 1)"
               "\<forall>k. k \<notin> irange i (j - 1) \<longrightarrow> tidx' k = ?sw k" by auto
      have split: "irange i j = insert (nat j) (irange i (j - 1))" "nat j \<notin> irange i (j - 1)"
        using True "1.prems" by (auto simp: irange_def)
      have ij: "nat i \<in> irange i j" "nat j \<in> irange i j"
        using True "1.prems" by (auto simp: irange_def)
      have sw_img: "?sw ` irange i j = tidx ` irange i j"
      proof
        show "?sw ` irange i j \<subseteq> tidx ` irange i j"
          using ij by (auto simp: swap_at_def)
        show "tidx ` irange i j \<subseteq> ?sw ` irange i j"
        proof
          fix y assume "y \<in> tidx ` irange i j"
          then obtain k where k: "k \<in> irange i j" "y = tidx k" by auto
          show "y \<in> ?sw ` irange i j"
          proof (cases "k = nat i")
            case True
            then have "y = ?sw (nat j)" using k by (simp add: swap_at_def)
            then show ?thesis using ij by blast
          next
            case ki: False
            show ?thesis
            proof (cases "k = nat j")
              case True
              then have "y = ?sw (nat i)" using k by (simp add: swap_at_def)
              then show ?thesis using ij by blast
            next
              case False
              then have "y = ?sw k" using k ki by (simp add: swap_at_def)
              then show ?thesis using k by blast
            qed
          qed
        qed
      qed
      have "tidx' (nat j) = ?sw (nat j)" using ih(2) split(2) by simp
      then have "tidx' ` irange i j = ?sw ` irange i j"
        using ih(1) by (simp add: split(1))
      then have "tidx' ` irange i j = tidx ` irange i j" using sw_img by simp
      moreover have "\<forall>k. k \<notin> irange i j \<longrightarrow> tidx' k = tidx k"
      proof (intro allI impI)
        fix k assume k: "k \<notin> irange i j"
        then have "k \<notin> irange i (j - 1)" "k \<noteq> nat i" "k \<noteq> nat j"
          using split(1) ij by auto
        then show "tidx' k = tidx k" using ih(2) by (simp add: swap_at_def)
      qed
      ultimately show ?thesis by simp
    qed
  qed
qed

lemma irange_nat: "irange (int a) (int a + int c - 1) = {a..<a + c}"
  by (auto simp: irange_def)

subsection \<open>What Subdivide does to the index array and to the node it is called on\<close>

definition node_range :: "BVH \<Rightarrow> nat \<Rightarrow> nat set" where
  "node_range s k = {leftFirst (bvhNode s k)..<leftFirst (bvhNode s k) + BVHNode.triCount (bvhNode s k)}"

definition node_box :: "BVHNode \<Rightarrow> float3 \<times> float3" where
  "node_box n = (aabbMin n, aabbMax n)"

definition same_tris :: "(nat \<Rightarrow> nat) \<Rightarrow> (nat \<Rightarrow> nat) \<Rightarrow> nat set \<Rightarrow> bool" where
  "same_tris f g R \<longleftrightarrow> f ` R = g ` R \<and> (\<forall>p. p \<notin> R \<longrightarrow> f p = g p)"

lemma same_tris_refl: "same_tris f f R"
  by (simp add: same_tris_def)

lemma Subdivide_split_triIdx:
  assumes "Subdivide_split U mesh s k = (s', c)"
  shows "same_tris (triIdx s') (triIdx s) (node_range s k)"
proof -
  let ?node = "bvhNode s k"
  obtain cost axis spl where fb: "FindBestSplitPlane mesh (triIdx s) ?node (uninit_axis U k) (uninit_splitPos U k) = (cost, axis, spl)"
    by (cases "FindBestSplitPlane mesh (triIdx s) ?node (uninit_axis U k) (uninit_splitPos U k)") auto
  obtain tidx i where pl: "partition_loop (\<lambda>t. centroid_at U mesh t axis) spl (triIdx s)
      (int (leftFirst ?node)) (int (leftFirst ?node) + int (BVHNode.triCount ?node) - 1) = (tidx, i)"
    by (cases "partition_loop (\<lambda>t. centroid_at U mesh t axis) spl (triIdx s)
      (int (leftFirst ?node)) (int (leftFirst ?node) + int (BVHNode.triCount ?node) - 1)") auto
  have st: "same_tris tidx (triIdx s) (node_range s k)"
    using partition_loop_perm[OF pl] by (simp add: same_tris_def node_range_def irange_nat)
  have "triIdx s' = triIdx s \<or> triIdx s' = tidx"
    using assms fb pl
    by (auto simp: Subdivide_split_def Let_def node_upd_simps UpdateNodeBounds_simps split: if_splits)
  then show ?thesis using st same_tris_refl by auto
qed

lemma Subdivide_split_empty:
  assumes "BVHNode.triCount (bvhNode s k) = 0"
  shows "Subdivide_split U mesh s k = (s, None)"
proof -
  have pl: "partition_loop key sp tidx (int a) (int a - 1) = (tidx, int a)" for key sp tidx a
    by (simp add: partition_loop.simps[of key sp tidx "int a" "int a - 1"])
  show ?thesis using assms
    by (simp add: Subdivide_split_def Let_def pl split: prod.splits)
qed

lemma Subdivide_triIdx:
  "k < nodesUsed s \<longrightarrow> same_tris (triIdx (Subdivide U mesh s k)) (triIdx s) (node_range s k)"
proof (induction U mesh s k rule: Subdivide_split_induct)
  case (Keep U mesh s k s')
  then show ?case using Subdivide_split_triIdx[of U mesh s k s' None] by (simp add: Subdivide_Keep)
next
  case (Split U mesh s k s' l r)
  show ?case
  proof
    assume k: "k < nodesUsed s"
    note slots = Subdivide_split_Some_slots[OF Split(1)]
    note eq = Subdivide_Split[OF Split(1)]
    let ?S1 = "Subdivide U mesh s' l"
    let ?S2 = "Subdivide U mesh ?S1 r"
    from Subdivide_split_Some_shape[OF Split(1) k] obtain lc where
      lc: "0 < lc" "lc < BVHNode.triCount (bvhNode s k)"
      and nl: "bvhNode s' l = \<lparr>aabbMin = fst (range_bounds mesh (triIdx s') (leftFirst (bvhNode s k)) lc),
                     leftFirst = leftFirst (bvhNode s k),
                     aabbMax = snd (range_bounds mesh (triIdx s') (leftFirst (bvhNode s k)) lc),
                     triCount = lc\<rparr>"
      and nr: "bvhNode s' r = \<lparr>aabbMin = fst (range_bounds mesh (triIdx s') (leftFirst (bvhNode s k) + lc)
                                   (BVHNode.triCount (bvhNode s k) - lc)),
                     leftFirst = leftFirst (bvhNode s k) + lc,
                     aabbMax = snd (range_bounds mesh (triIdx s') (leftFirst (bvhNode s k) + lc)
                                   (BVHNode.triCount (bvhNode s k) - lc)),
                     triCount = BVHNode.triCount (bvhNode s k) - lc\<rparr>"
      by auto
    let ?f = "leftFirst (bvhNode s k)" and ?c = "BVHNode.triCount (bvhNode s k)"
    have fr: "bvhNode ?S1 r = bvhNode s' r"
      using Subdivide_frame[of s' U mesh l] slots by simp
    have Rl: "node_range s' l = {?f..<?f + lc}" by (simp add: node_range_def nl)
    have Rr: "node_range ?S1 r = {?f + lc..<?f + ?c}" using lc by (simp add: node_range_def fr nr)
    have R: "node_range s k = {?f..<?f + lc} \<union> {?f + lc..<?f + ?c}"
      using lc by (auto simp: node_range_def)
    have st0: "same_tris (triIdx s') (triIdx s) (node_range s k)"
      using Subdivide_split_triIdx[OF Split(1)] .
    have st1: "same_tris (triIdx ?S1) (triIdx s') {?f..<?f + lc}"
      using Split(2) slots Rl by simp
    have st2: "same_tris (triIdx ?S2) (triIdx ?S1) {?f + lc..<?f + ?c}"
      using Split(3) slots Rr Subdivide_frame[of s' U mesh l] by simp
    have out: "triIdx ?S2 p = triIdx s p" if "p \<notin> node_range s k" for p
      using that st0 st1 st2 R by (simp add: same_tris_def)
    have l_eq: "triIdx ?S2 p = triIdx ?S1 p" if "p \<in> {?f..<?f + lc}" for p
      using that st2 by (simp add: same_tris_def)
    have r_eq: "triIdx ?S1 p = triIdx s' p" if "p \<in> {?f + lc..<?f + ?c}" for p
      using that st1 by (simp add: same_tris_def)
    have "triIdx ?S2 ` {?f..<?f + lc} = triIdx ?S1 ` {?f..<?f + lc}"
      using l_eq by (intro image_cong) auto
    then have il: "triIdx ?S2 ` {?f..<?f + lc} = triIdx s' ` {?f..<?f + lc}"
      using st1 by (simp add: same_tris_def)
    have "triIdx ?S1 ` {?f + lc..<?f + ?c} = triIdx s' ` {?f + lc..<?f + ?c}"
      using r_eq by (intro image_cong) auto
    then have ir: "triIdx ?S2 ` {?f + lc..<?f + ?c} = triIdx s' ` {?f + lc..<?f + ?c}"
      using st2 by (simp add: same_tris_def)
    have "triIdx ?S2 ` node_range s k = triIdx s' ` node_range s k"
      unfolding R image_Un using il ir by simp
    then have "triIdx ?S2 ` node_range s k = triIdx s ` node_range s k"
      using st0 by (simp add: same_tris_def)
    then show "same_tris (triIdx (Subdivide U mesh s k)) (triIdx s) (node_range s k)"
      unfolding eq using out by (simp add: same_tris_def)
  qed
qed

lemma Subdivide_own_node:
  assumes k: "k < nodesUsed s"
  shows "case Subdivide_split U mesh s k of
           (s', None) \<Rightarrow> bvhNode (Subdivide U mesh s k) k = bvhNode s k
         | (s', Some (l, r)) \<Rightarrow>
             bvhNode (Subdivide U mesh s k) k = (bvhNode s k)\<lparr>leftFirst := l, triCount := 0\<rparr>"
proof -
  obtain s' c where sp: "Subdivide_split U mesh s k = (s', c)"
    by (cases "Subdivide_split U mesh s k") auto
  show ?thesis
  proof (cases c)
    case None
    with sp show ?thesis using Subdivide_split_None[of U mesh s k s'] by (simp add: Subdivide_Keep)
  next
    case (Some lr)
    obtain l r where lr: "lr = (l, r)" by (cases lr) auto
    have sp': "Subdivide_split U mesh s k = (s', Some (l, r))" using sp Some lr by simp
    note slots = Subdivide_split_Some_slots[OF sp']
    from Subdivide_split_Some_shape[OF sp' k]
    have nk: "bvhNode s' k = (bvhNode s k)\<lparr>leftFirst := l, triCount := 0\<rparr>" by auto
    have a: "bvhNode (Subdivide U mesh s' l) k = bvhNode s' k"
      using Subdivide_frame[of s' U mesh l] slots k by simp
    have b: "bvhNode (Subdivide U mesh (Subdivide U mesh s' l) r) k = bvhNode (Subdivide U mesh s' l) k"
      using Subdivide_frame[of "Subdivide U mesh s' l" U mesh r] Subdivide_frame[of s' U mesh l] slots k by simp
    show ?thesis using sp' a b nk by (simp add: Subdivide_Split[OF sp'])
  qed
qed

lemma Subdivide_own_box:
  assumes k: "k < nodesUsed s"
  shows "node_box (bvhNode (Subdivide U mesh s k) k) = node_box (bvhNode s k)"
  using Subdivide_own_node[OF k, of U mesh]
  by (auto simp: node_box_def split: prod.splits option.splits)

subsection \<open>The tree that the pool holds\<close>

datatype btree = Lf nat | Nd nat btree btree

fun root_idx :: "btree \<Rightarrow> nat" where
  "root_idx (Lf k) = k"
| "root_idx (Nd k a b) = k"

fun nodes :: "btree \<Rightarrow> nat set" where
  "nodes (Lf k) = {k}"
| "nodes (Nd k a b) = insert k (nodes a \<union> nodes b)"

fun positions :: "BVH \<Rightarrow> btree \<Rightarrow> nat set" where
  "positions s (Lf k) = node_range s k"
| "positions s (Nd k a b) = positions s a \<union> positions s b"

fun wf_tree :: "Mesh \<Rightarrow> BVH \<Rightarrow> btree \<Rightarrow> bool" where
  "wf_tree mesh s (Lf k) \<longleftrightarrow>
     0 < BVHNode.triCount (bvhNode s k) \<and>
     node_box (bvhNode s k)
       = range_bounds mesh (triIdx s) (leftFirst (bvhNode s k)) (BVHNode.triCount (bvhNode s k))"
| "wf_tree mesh s (Nd k a b) \<longleftrightarrow>
     BVHNode.triCount (bvhNode s k) = 0 \<and> leftFirst (bvhNode s k) = root_idx a \<and>
     root_idx b = root_idx a + 1 \<and> k < root_idx a \<and> wf_tree mesh s a \<and> wf_tree mesh s b \<and>
     node_box (bvhNode s k) = combine (node_box (bvhNode s (root_idx a))) (node_box (bvhNode s (root_idx b)))"

lemma wf_tree_cong:
  "wf_tree mesh s t \<Longrightarrow> (\<forall>i\<in>nodes t. bvhNode s2 i = bvhNode s i) \<Longrightarrow>
     (\<forall>p\<in>positions s t. triIdx s2 p = triIdx s p) \<Longrightarrow>
     wf_tree mesh s2 t \<and> positions s2 t = positions s t"
proof (induction t)
  case (Lf k)
  have nk: "bvhNode s2 k = bvhNode s k" using Lf by simp
  have "triIdx s2 ` node_range s k = triIdx s ` node_range s k"
    using Lf(3) by (intro image_cong) auto
  then have "range_bounds mesh (triIdx s2) (leftFirst (bvhNode s k)) (BVHNode.triCount (bvhNode s k))
           = range_bounds mesh (triIdx s) (leftFirst (bvhNode s k)) (BVHNode.triCount (bvhNode s k))"
    by (intro range_bounds_cong) (simp add: node_range_def)
  then show ?case using Lf(1) nk by (simp add: node_range_def)
next
  case (Nd k a b)
  have root_idx_in: "root_idx t \<in> nodes t" for t by (cases t) auto
  have a: "wf_tree mesh s2 a \<and> positions s2 a = positions s a"
    using Nd by auto
  have b: "wf_tree mesh s2 b \<and> positions s2 b = positions s b"
    using Nd by auto
  have "bvhNode s2 k = bvhNode s k" "bvhNode s2 (root_idx a) = bvhNode s (root_idx a)"
       "bvhNode s2 (root_idx b) = bvhNode s (root_idx b)"
    using Nd(4) root_idx_in[of a] root_idx_in[of b] by auto
  then show ?case using Nd(3) a b by simp
qed

lemma Subdivide_wf:
  "k < nodesUsed s \<longrightarrow> 0 < BVHNode.triCount (bvhNode s k) \<longrightarrow>
   node_box (bvhNode s k)
     = range_bounds mesh (triIdx s) (leftFirst (bvhNode s k)) (BVHNode.triCount (bvhNode s k)) \<longrightarrow>
   (\<exists>t. root_idx t = k \<and> wf_tree mesh (Subdivide U mesh s k) t \<and>
        nodes t = insert k {nodesUsed s..<nodesUsed (Subdivide U mesh s k)} \<and>
        positions (Subdivide U mesh s k) t = node_range s k)"
proof (induction U mesh s k rule: Subdivide_split_induct)
  case (Keep U mesh s k s')
  show ?case
  proof (intro impI)
    assume k: "k < nodesUsed s" and c: "0 < BVHNode.triCount (bvhNode s k)"
      and box: "node_box (bvhNode s k)
        = range_bounds mesh (triIdx s) (leftFirst (bvhNode s k)) (BVHNode.triCount (bvhNode s k))"
    have S: "Subdivide U mesh s k = s'" using Keep by (simp add: Subdivide_Keep)
    have n: "bvhNode s' = bvhNode s" "nodesUsed s' = nodesUsed s"
      using Subdivide_split_None[OF Keep] by auto
    have st: "same_tris (triIdx s') (triIdx s) (node_range s k)"
      using Subdivide_split_triIdx[OF Keep] .
    have rb: "range_bounds mesh (triIdx s') (leftFirst (bvhNode s k)) (BVHNode.triCount (bvhNode s k))
           = range_bounds mesh (triIdx s) (leftFirst (bvhNode s k)) (BVHNode.triCount (bvhNode s k))"
      using st by (intro range_bounds_cong) (simp add: same_tris_def node_range_def)
    have "root_idx (Lf k) = k \<and> wf_tree mesh s' (Lf k) \<and>
          nodes (Lf k) = insert k {nodesUsed s..<nodesUsed s'} \<and> positions s' (Lf k) = node_range s k"
      using c box rb n by (simp add: node_range_def)
    then show "\<exists>t. root_idx t = k \<and> wf_tree mesh (Subdivide U mesh s k) t \<and>
        nodes t = insert k {nodesUsed s..<nodesUsed (Subdivide U mesh s k)} \<and>
        positions (Subdivide U mesh s k) t = node_range s k"
      unfolding S by blast
  qed
next
  case (Split U mesh s k s' l r)
  show ?case
  proof (intro impI)
    assume k: "k < nodesUsed s" and c: "0 < BVHNode.triCount (bvhNode s k)"
      and box: "node_box (bvhNode s k)
        = range_bounds mesh (triIdx s) (leftFirst (bvhNode s k)) (BVHNode.triCount (bvhNode s k))"
    note slots = Subdivide_split_Some_slots[OF Split(1)]
    note eq = Subdivide_Split[OF Split(1)]
    let ?S1 = "Subdivide U mesh s' l"
    let ?S2 = "Subdivide U mesh ?S1 r"
    let ?f = "leftFirst (bvhNode s k)" and ?c = "BVHNode.triCount (bvhNode s k)"
    from Subdivide_split_Some_shape[OF Split(1) k] obtain lc where
      lc: "0 < lc" "lc < ?c"
      and nl: "bvhNode s' l = \<lparr>aabbMin = fst (range_bounds mesh (triIdx s') ?f lc),
                     leftFirst = ?f,
                     aabbMax = snd (range_bounds mesh (triIdx s') ?f lc),
                     triCount = lc\<rparr>"
      and nr: "bvhNode s' r = \<lparr>aabbMin = fst (range_bounds mesh (triIdx s') (?f + lc) (?c - lc)),
                     leftFirst = ?f + lc,
                     aabbMax = snd (range_bounds mesh (triIdx s') (?f + lc) (?c - lc)),
                     triCount = ?c - lc\<rparr>"
      and nk: "bvhNode s' k = (bvhNode s k)\<lparr>leftFirst := l, triCount := 0\<rparr>"
      by auto
    have fr1: "nodesUsed s' \<le> nodesUsed ?S1"
      "\<And>i. i \<noteq> l \<Longrightarrow> i < nodesUsed s' \<Longrightarrow> bvhNode ?S1 i = bvhNode s' i"
      using Subdivide_frame[of s' U mesh l] by auto
    have fr2: "nodesUsed ?S1 \<le> nodesUsed ?S2"
      "\<And>i. i \<noteq> r \<Longrightarrow> i < nodesUsed ?S1 \<Longrightarrow> bvhNode ?S2 i = bvhNode ?S1 i"
      using Subdivide_frame[of ?S1 U mesh r] by auto
    have Rl: "node_range s' l = {?f..<?f + lc}" by (simp add: node_range_def nl)
    have S1r: "bvhNode ?S1 r = bvhNode s' r" using fr1(2)[of r] slots by simp
    have Rr: "node_range ?S1 r = {?f + lc..<?f + ?c}" using lc by (simp add: node_range_def S1r nr)
    have R: "node_range s k = {?f..<?f + lc} \<union> {?f + lc..<?f + ?c}"
      using lc by (auto simp: node_range_def)
    have st0: "same_tris (triIdx s') (triIdx s) (node_range s k)"
      using Subdivide_split_triIdx[OF Split(1)] .
    have st1: "same_tris (triIdx ?S1) (triIdx s') {?f..<?f + lc}"
      using Subdivide_triIdx[of l s' U mesh] slots Rl by simp
    have st2: "same_tris (triIdx ?S2) (triIdx ?S1) {?f + lc..<?f + ?c}"
      using Subdivide_triIdx[of r ?S1 U mesh] slots Rr fr1(1) by simp
    \<comment> \<open>the left child\<close>
    have "node_box (bvhNode s' l)
        = range_bounds mesh (triIdx s') (leftFirst (bvhNode s' l)) (BVHNode.triCount (bvhNode s' l))"
      by (simp add: nl node_box_def)
    with Split(2) slots lc nl obtain tl where
      tl: "root_idx tl = l" "wf_tree mesh ?S1 tl" "nodes tl = insert l {nodesUsed s'..<nodesUsed ?S1}"
          "positions ?S1 tl = {?f..<?f + lc}"
      using Rl by auto
    \<comment> \<open>the right child\<close>
    have "range_bounds mesh (triIdx ?S1) (?f + lc) (?c - lc)
        = range_bounds mesh (triIdx s') (?f + lc) (?c - lc)"
    proof (intro range_bounds_cong image_cong refl)
      fix p assume "p \<in> {?f + lc..<?f + lc + (?c - lc)}"
      then have "p \<notin> {?f..<?f + lc}" by simp
      then show "triIdx ?S1 p = triIdx s' p" using st1 by (simp add: same_tris_def)
    qed
    then have "node_box (bvhNode ?S1 r)
        = range_bounds mesh (triIdx ?S1) (leftFirst (bvhNode ?S1 r)) (BVHNode.triCount (bvhNode ?S1 r))"
      by (simp add: S1r nr node_box_def)
    with Split(3) slots lc S1r nr fr1(1) obtain tr where
      tr: "root_idx tr = r" "wf_tree mesh ?S2 tr" "nodes tr = insert r {nodesUsed ?S1..<nodesUsed ?S2}"
          "positions ?S2 tr = {?f + lc..<?f + ?c}"
      using Rr by auto
    \<comment> \<open>the left subtree after the second call\<close>
    have "\<forall>i\<in>nodes tl. bvhNode ?S2 i = bvhNode ?S1 i"
      using tl(3) fr2(2) slots fr1(1) by auto
    moreover have "\<forall>p\<in>positions ?S1 tl. triIdx ?S2 p = triIdx ?S1 p"
      using tl(4) st2 by (auto simp: same_tris_def)
    ultimately have tl2: "wf_tree mesh ?S2 tl" "positions ?S2 tl = {?f..<?f + lc}"
      using wf_tree_cong[OF tl(2), of ?S2] tl(4) by auto
    \<comment> \<open>the node itself\<close>
    have S2k: "bvhNode ?S2 k = (bvhNode s k)\<lparr>leftFirst := l, triCount := 0\<rparr>"
      using fr2(2)[of k] fr1(2)[of k] fr1(1) slots k nk by simp
    have S2l: "node_box (bvhNode ?S2 l) = node_box (bvhNode s' l)"
      using fr2(2)[of l] fr1(1) slots Subdivide_own_box[of l s' U mesh] by simp
    have S2r: "node_box (bvhNode ?S2 r) = node_box (bvhNode s' r)"
      using Subdivide_own_box[of r ?S1 U mesh] fr1(1) slots S1r by simp
    have "range_bounds mesh (triIdx s') ?f ?c = range_bounds mesh (triIdx s) ?f ?c"
      using st0 by (intro range_bounds_cong) (simp add: same_tris_def node_range_def)
    then have "node_box (bvhNode s k)
       = combine (range_bounds mesh (triIdx s') ?f lc) (range_bounds mesh (triIdx s') (?f + lc) (?c - lc))"
      using box range_bounds_split[of lc ?c mesh "triIdx s'" ?f] lc by simp
    moreover have "node_box (bvhNode ?S2 l) = range_bounds mesh (triIdx s') ?f lc"
      using S2l by (simp add: nl node_box_def)
    moreover have "node_box (bvhNode ?S2 r) = range_bounds mesh (triIdx s') (?f + lc) (?c - lc)"
      using S2r by (simp add: nr node_box_def)
    moreover have "node_box (bvhNode ?S2 k) = node_box (bvhNode s k)"
      by (simp add: S2k node_box_def)
    ultimately have kbox:
      "node_box (bvhNode ?S2 k) = combine (node_box (bvhNode ?S2 l)) (node_box (bvhNode ?S2 r))"
      by simp
    have "root_idx (Nd k tl tr) = k \<and> wf_tree mesh ?S2 (Nd k tl tr) \<and>
          nodes (Nd k tl tr) = insert k {nodesUsed s..<nodesUsed ?S2} \<and>
          positions ?S2 (Nd k tl tr) = node_range s k"
    proof (intro conjI)
      show "root_idx (Nd k tl tr) = k" by simp
      have "BVHNode.triCount (bvhNode ?S2 k) = 0" "leftFirst (bvhNode ?S2 k) = l"
        by (simp_all add: S2k)
      then show "wf_tree mesh ?S2 (Nd k tl tr)"
        using tl(1) tr(1) tl2(1) tr(2) kbox slots k by simp
      show "nodes (Nd k tl tr) = insert k {nodesUsed s..<nodesUsed ?S2}"
        using tl(3) tr(3) slots fr1(1) fr2(1) by auto
      show "positions ?S2 (Nd k tl tr) = node_range s k"
        using tl2(2) tr(4) R by simp
    qed
    then show "\<exists>t. root_idx t = k \<and> wf_tree mesh (Subdivide U mesh s k) t \<and>
        nodes t = insert k {nodesUsed s..<nodesUsed (Subdivide U mesh s k)} \<and>
        positions (Subdivide U mesh s k) t = node_range s k"
      unfolding eq by blast
  qed
qed

section \<open>Refit\<close>

subsection \<open>The tree that Build leaves\<close>

lemma Build_init_box:
  "node_box (bvhNode (snd (Build_init mesh s)) 0)
     = range_bounds (fst (Build_init mesh s)) (triIdx (snd (Build_init mesh s))) 0 (Mesh.triCount mesh)"
  by (simp add: Build_init_def Let_def node_upd_simps UpdateNodeBounds_def node_box_def)

lemma Build_wf:
  assumes "1 \<le> Mesh.triCount mesh"
  shows "\<exists>t. root_idx t = 0 \<and> wf_tree (fst (Build U mesh s)) (snd (Build U mesh s)) t \<and>
           nodes t = insert 0 {2..<nodesUsed (snd (Build U mesh s))} \<and>
           positions (snd (Build U mesh s)) t = {0..<Mesh.triCount mesh}"
  using Subdivide_wf[of 0 "snd (Build_init mesh s)" "fst (Build_init mesh s)" U] assms Build_init_box[of mesh s]
  by (simp add: Build_eq Build_init_simps node_range_def)


subsection \<open>Refit\<close>

lemma Refit_node_simps:
  "triIdx (Refit_node mesh i s) = triIdx s"
  "nodesUsed (Refit_node mesh i s) = nodesUsed s"
  "leftFirst (bvhNode (Refit_node mesh i s) j) = leftFirst (bvhNode s j)"
  "BVHNode.triCount (bvhNode (Refit_node mesh i s) j) = BVHNode.triCount (bvhNode s j)"
  "j \<noteq> i \<Longrightarrow> bvhNode (Refit_node mesh i s) j = bvhNode s j"
  "Refit_node mesh 1 s = s"
  "Refit_node mesh (Suc 0) s = s"
  by (simp_all add: Refit_node_def Let_def node_upd_simps UpdateNodeBounds_simps)

definition refit_done :: "Mesh \<Rightarrow> BVH \<Rightarrow> nat \<Rightarrow> bool" where
  "refit_done mesh s i =
     (if isLeaf (bvhNode s i)
      then node_box (bvhNode s i)
             = range_bounds mesh (triIdx s) (leftFirst (bvhNode s i)) (BVHNode.triCount (bvhNode s i))
      else node_box (bvhNode s i)
             = combine (node_box (bvhNode s (leftFirst (bvhNode s i))))
                       (node_box (bvhNode s (leftFirst (bvhNode s i) + 1))))"

lemma combine_idem: "combine (combine a b) b = combine a b"
  by (simp add: combine_def fminf_def fmaxf_def)

lemma Refit_node_done:
  assumes "i \<noteq> 1" "\<not> isLeaf (bvhNode s i) \<longrightarrow> i \<le> leftFirst (bvhNode s i)"
  shows "refit_done mesh (Refit_node mesh i s) i"
proof (cases "isLeaf (bvhNode s i)")
  case True
  then show ?thesis using assms(1)
    by (simp add: refit_done_def Refit_node_def Let_def isLeaf_def UpdateNodeBounds_def
        node_upd_simps node_box_def)
next
  case False
  let ?l = "leftFirst (bvhNode s i)"
  let ?s1 = "Refit_node mesh i s"
  have l: "i \<le> ?l" using False assms(2) by simp
  have new: "node_box (bvhNode ?s1 i) = combine (node_box (bvhNode s ?l)) (node_box (bvhNode s (?l + 1)))"
    using False assms(1)
    by (simp add: Refit_node_def Let_def node_upd_simps node_box_def combine_def)
  have r: "bvhNode ?s1 (?l + 1) = bvhNode s (?l + 1)"
    using l by (simp add: Refit_node_simps)
  have "node_box (bvhNode ?s1 i) = combine (node_box (bvhNode ?s1 ?l)) (node_box (bvhNode ?s1 (?l + 1)))"
  proof (cases "?l = i")
    case True
    then show ?thesis using new r combine_idem by simp
  next
    case False
    then have "bvhNode ?s1 ?l = bvhNode s ?l" by (simp add: Refit_node_simps)
    then show ?thesis using new r by simp
  qed
  then show ?thesis using False
    by (simp add: refit_done_def isLeaf_def Refit_node_simps)
qed

definition same_topology :: "BVH \<Rightarrow> BVH \<Rightarrow> bool" where
  "same_topology s' s \<longleftrightarrow>
     triIdx s' = triIdx s \<and> nodesUsed s' = nodesUsed s \<and>
     (\<forall>i. leftFirst (bvhNode s' i) = leftFirst (bvhNode s i) \<and>
          BVHNode.triCount (bvhNode s' i) = BVHNode.triCount (bvhNode s i))"

lemma refit_done_cong:
  assumes "refit_done mesh s i" "same_topology s' s" "bvhNode s' i = bvhNode s i"
    "\<not> isLeaf (bvhNode s i) \<longrightarrow>
       bvhNode s' (leftFirst (bvhNode s i)) = bvhNode s (leftFirst (bvhNode s i)) \<and>
       bvhNode s' (leftFirst (bvhNode s i) + 1) = bvhNode s (leftFirst (bvhNode s i) + 1)"
  shows "refit_done mesh s' i"
  using assms by (auto simp: refit_done_def same_topology_def)

lemma Refit_fold:
  "(\<forall>i<n. i \<noteq> 1 \<longrightarrow> \<not> isLeaf (bvhNode s i) \<longrightarrow> i \<le> leftFirst (bvhNode s i)) \<Longrightarrow>
     same_topology (fold (Refit_node mesh) (rev [0..<n]) s) s \<and>
     (\<forall>i. i = 1 \<or> n \<le> i \<longrightarrow> bvhNode (fold (Refit_node mesh) (rev [0..<n]) s) i = bvhNode s i) \<and>
     (\<forall>i<n. i \<noteq> 1 \<longrightarrow> refit_done mesh (fold (Refit_node mesh) (rev [0..<n]) s) i)"
proof (induction n arbitrary: s)
  case 0
  then show ?case by (simp add: same_topology_def)
next
  case (Suc n)
  let ?s1 = "Refit_node mesh n s"
  let ?s' = "fold (Refit_node mesh) (rev [0..<n]) ?s1"
  have fold_eq: "fold (Refit_node mesh) (rev [0..<Suc n]) s = ?s'" by simp
  have top1: "same_topology ?s1 s" by (simp add: same_topology_def Refit_node_simps)
  have up1: "\<forall>i<n. i \<noteq> 1 \<longrightarrow> \<not> isLeaf (bvhNode ?s1 i) \<longrightarrow> i \<le> leftFirst (bvhNode ?s1 i)"
    using Suc.prems by (simp add: isLeaf_def Refit_node_simps)
  from Suc.IH[OF up1] have ih:
    "same_topology ?s' ?s1"
    "\<forall>i. i = 1 \<or> n \<le> i \<longrightarrow> bvhNode ?s' i = bvhNode ?s1 i"
    "\<forall>i<n. i \<noteq> 1 \<longrightarrow> refit_done mesh ?s' i" by auto
  have top: "same_topology ?s' s" using ih(1) top1 by (simp add: same_topology_def)
  have frame: "\<forall>i. i = 1 \<or> Suc n \<le> i \<longrightarrow> bvhNode ?s' i = bvhNode s i"
  proof (intro allI impI)
    fix i assume i: "i = 1 \<or> Suc n \<le> i"
    show "bvhNode ?s' i = bvhNode s i"
    proof (cases "i = n")
      case True
      with i have "n = 1" by simp
      then show ?thesis using ih(2) True by (simp add: Refit_node_simps)
    next
      case False
      then show ?thesis using ih(2) i by (auto simp: Refit_node_simps)
    qed
  qed
  have done_n: "refit_done mesh ?s' n" if n1: "n \<noteq> 1"
  proof -
    have up_n: "\<not> isLeaf (bvhNode s n) \<longrightarrow> n \<le> leftFirst (bvhNode s n)"
      using Suc.prems n1 by simp
    have d1: "refit_done mesh ?s1 n" using Refit_node_done[OF n1 up_n] .
    have "\<not> isLeaf (bvhNode ?s1 n) \<longrightarrow>
       bvhNode ?s' (leftFirst (bvhNode ?s1 n)) = bvhNode ?s1 (leftFirst (bvhNode ?s1 n)) \<and>
       bvhNode ?s' (leftFirst (bvhNode ?s1 n) + 1) = bvhNode ?s1 (leftFirst (bvhNode ?s1 n) + 1)"
    proof
      assume "\<not> isLeaf (bvhNode ?s1 n)"
      then have l: "n \<le> leftFirst (bvhNode ?s1 n)" "n \<le> leftFirst (bvhNode ?s1 n) + 1"
        using up_n by (simp_all add: isLeaf_def Refit_node_simps)
      show "bvhNode ?s' (leftFirst (bvhNode ?s1 n)) = bvhNode ?s1 (leftFirst (bvhNode ?s1 n)) \<and>
       bvhNode ?s' (leftFirst (bvhNode ?s1 n) + 1) = bvhNode ?s1 (leftFirst (bvhNode ?s1 n) + 1)"
        using ih(2) l by blast
    qed
    then show ?thesis using refit_done_cong[OF d1 ih(1)] ih(2) by simp
  qed
  have "\<forall>i<Suc n. i \<noteq> 1 \<longrightarrow> refit_done mesh ?s' i"
    using ih(3) done_n by (auto simp: less_Suc_eq)
  then show ?case unfolding fold_eq using top frame by blast
qed

lemma wf_tree_root_idx_in: "root_idx t \<in> nodes t"
  by (cases t) auto

lemma wf_tree_up:
  "wf_tree mesh s t \<Longrightarrow> i \<in> nodes t \<Longrightarrow> \<not> isLeaf (bvhNode s i) \<Longrightarrow> i < leftFirst (bvhNode s i)"
  by (induction t) (auto simp: isLeaf_def)

lemma wf_tree_done:
  "wf_tree mesh s t \<Longrightarrow> i \<in> nodes t \<Longrightarrow> refit_done mesh s i"
  by (induction t) (auto simp: refit_done_def isLeaf_def)

lemma Build_empty:
  assumes "Mesh.triCount mesh = 0"
  shows "snd (Build U mesh s) = snd (Build_init mesh s)"
    "nodesUsed (snd (Build U mesh s)) = 2"
    "bvhNode (snd (Build U mesh s)) 0
       = (bvhNode s 0)\<lparr>aabbMin := float3_splat inf30, leftFirst := 0,
                         aabbMax := float3_splat (- inf30), triCount := 0\<rparr>"
    "\<And>i. i \<noteq> 0 \<Longrightarrow> bvhNode (snd (Build U mesh s)) i = bvhNode s i"
proof -
  let ?m = "fst (Build_init mesh s)" and ?s = "snd (Build_init mesh s)"
  have "BVHNode.triCount (bvhNode ?s 0) = 0" using assms by (simp add: Build_init_simps)
  then have "Subdivide U ?m ?s 0 = ?s"
    using Subdivide_split_empty[of ?s 0 U ?m] by (simp add: Subdivide_Keep)
  then show e: "snd (Build U mesh s) = ?s" by (simp add: Build_eq)
  show "nodesUsed (snd (Build U mesh s)) = 2" by (simp add: e Build_init_simps)
  show "bvhNode (snd (Build U mesh s)) 0
       = (bvhNode s 0)\<lparr>aabbMin := float3_splat inf30, leftFirst := 0,
                         aabbMax := float3_splat (- inf30), triCount := 0\<rparr>"
    using assms
    by (simp add: e Build_init_def Let_def node_upd_simps UpdateNodeBounds_def range_bounds_def)
  show "\<And>i. i \<noteq> 0 \<Longrightarrow> bvhNode (snd (Build U mesh s)) i = bvhNode s i"
    by (simp add: e Build_init_simps)
qed

lemma Build_up:
  "i < nodesUsed (snd (Build U mesh s)) \<Longrightarrow> i \<noteq> 1 \<Longrightarrow>
     \<not> isLeaf (bvhNode (snd (Build U mesh s)) i) \<Longrightarrow>
     i \<le> leftFirst (bvhNode (snd (Build U mesh s)) i)"
proof (cases "Mesh.triCount mesh = 0")
  case True
  assume "i < nodesUsed (snd (Build U mesh s))" "i \<noteq> 1"
  then have "i = 0" using Build_empty(2)[OF True, of U s] by simp
  then show ?thesis using Build_empty(3)[OF True, of U s] by simp
next
  case False
  assume i: "i < nodesUsed (snd (Build U mesh s))" "i \<noteq> 1"
    and nl: "\<not> isLeaf (bvhNode (snd (Build U mesh s)) i)"
  from False Build_wf[of mesh U s] obtain t where
    t: "wf_tree (fst (Build U mesh s)) (snd (Build U mesh s)) t"
       "nodes t = insert 0 {2..<nodesUsed (snd (Build U mesh s))}" by auto
  have "i \<in> nodes t" using i t(2) by auto
  from wf_tree_up[OF t(1) this nl] show ?thesis by simp
qed

lemma Build_nodesUsed_ge:
  "2 \<le> nodesUsed (snd (Build U mesh s))"
  using Subdivide_frame[of "snd (Build_init mesh s)" U "fst (Build_init mesh s)" 0]
  by (simp add: Build_eq Build_init_simps)

text \<open>
  C5. \<^verbatim>\<open>Refit\<close> preserves the topology of every built tree: \<open>triIdx\<close>, \<open>nodesUsed\<close> and
  every node's \<open>leftFirst\<close> and \<open>triCount\<close> are as before, whatever the vertices now are;
  slot 1 and the slots past the watermark are not touched. The walk goes down from the
  last node in use, so every child is refitted before its parent: afterwards each leaf
  has the bounds of its triangles, and each interior node the componentwise
  \<^verbatim>\<open>fminf\<close>/\<^verbatim>\<open>fmaxf\<close> of its two children as they are after the walk.
\<close>

theorem Refit_preserves_topology:
  "same_topology (Refit mesh' (snd (Build U mesh s))) (snd (Build U mesh s)) \<and>
   (\<forall>i. i = 1 \<or> nodesUsed (snd (Build U mesh s)) \<le> i \<longrightarrow>
        bvhNode (Refit mesh' (snd (Build U mesh s))) i = bvhNode (snd (Build U mesh s)) i) \<and>
   (\<forall>i<nodesUsed (snd (Build U mesh s)). i \<noteq> 1 \<longrightarrow>
        refit_done mesh' (Refit mesh' (snd (Build U mesh s))) i)"
  unfolding Refit_def
  by (rule Refit_fold) (use Build_up in blast)

theorem Refit_preserves_topology_witness:
  "same_topology (Refit tieMesh (snd (Build zeroU tieMesh zeroBVH))) (snd (Build zeroU tieMesh zeroBVH)) \<and>
   bvhNode (Refit tieMesh (snd (Build zeroU tieMesh zeroBVH))) 1
     = bvhNode (snd (Build zeroU tieMesh zeroBVH)) 1 \<and>
   refit_done tieMesh (Refit tieMesh (snd (Build zeroU tieMesh zeroBVH))) 0"
proof -
  have "0 < nodesUsed (snd (Build zeroU tieMesh zeroBVH))"
    using Build_nodesUsed_ge[of zeroU tieMesh zeroBVH] by simp
  with Refit_preserves_topology[of tieMesh zeroU tieMesh zeroBVH] show ?thesis by simp
qed

lemma Refit_node_id:
  assumes "refit_done mesh s i"
  shows "Refit_node mesh i s = s"
proof -
  have upd: "node_upd i (\<lambda>n. n\<lparr>aabbMin := a, aabbMax := b\<rparr>) s = s"
    if "node_box (bvhNode s i) = (a, b)" for a b
  proof -
    have "(bvhNode s i)\<lparr>aabbMin := a, aabbMax := b\<rparr> = bvhNode s i"
      using that by (simp add: node_box_def)
    then show ?thesis by (simp add: node_upd_def)
  qed
  show ?thesis
  proof (cases "isLeaf (bvhNode s i)")
    case True
    with assms have "node_box (bvhNode s i)
       = (fst (range_bounds mesh (triIdx s) (leftFirst (bvhNode s i)) (BVHNode.triCount (bvhNode s i))),
          snd (range_bounds mesh (triIdx s) (leftFirst (bvhNode s i)) (BVHNode.triCount (bvhNode s i))))"
      by (simp add: refit_done_def)
    from upd[OF this] True show ?thesis
      by (simp add: Refit_node_def Let_def UpdateNodeBounds_def)
  next
    case False
    with assms have "node_box (bvhNode s i)
       = (fminf (aabbMin (bvhNode s (leftFirst (bvhNode s i))))
                (aabbMin (bvhNode s (leftFirst (bvhNode s i) + 1))),
          fmaxf (aabbMax (bvhNode s (leftFirst (bvhNode s i))))
                (aabbMax (bvhNode s (leftFirst (bvhNode s i) + 1))))"
      by (simp add: refit_done_def combine_def node_box_def)
    from upd[OF this] False show ?thesis
      by (simp add: Refit_node_def Let_def)
  qed
qed

lemma Refit_id:
  assumes "\<forall>i<nodesUsed s. i \<noteq> 1 \<longrightarrow> refit_done mesh s i"
  shows "Refit mesh s = s"
proof -
  have "(\<forall>i\<in>set xs. i \<noteq> 1 \<longrightarrow> refit_done mesh s i) \<Longrightarrow> fold (Refit_node mesh) xs s = s" for xs
  proof (induction xs)
    case Nil
    then show ?case by simp
  next
    case (Cons a xs)
    have "Refit_node mesh a s = s"
    proof (cases "a = 1")
      case True
      then show ?thesis by (simp add: Refit_node_simps)
    next
      case False
      then show ?thesis using Cons.prems by (simp add: Refit_node_id)
    qed
    then show ?case using Cons by simp
  qed
  from this[of "rev [0..<nodesUsed s]"] assms show ?thesis by (simp add: Refit_def)
qed

lemma Build_Refit_id:
  assumes "1 \<le> Mesh.triCount mesh"
  shows "Refit (fst (Build U mesh s)) (snd (Build U mesh s)) = snd (Build U mesh s)"
proof -
  from Build_wf[OF assms, of U s] obtain t where
    t: "wf_tree (fst (Build U mesh s)) (snd (Build U mesh s)) t"
       "nodes t = insert 0 {2..<nodesUsed (snd (Build U mesh s))}" by auto
  have "refit_done (fst (Build U mesh s)) (snd (Build U mesh s)) i"
    if "i < nodesUsed (snd (Build U mesh s))" "i \<noteq> 1" for i
  proof -
    have "i \<in> nodes t" using that t(2) by auto
    then show ?thesis using wf_tree_done[OF t(1)] by simp
  qed
  then show ?thesis by (intro Refit_id) simp
qed

section \<open>The empty mesh\<close>

subsection \<open>The empty mesh\<close>

lemma IntersectTri_keeps:
  "ray_O (IntersectTri ray tr ip) = ray_O ray"
  "ray_D (IntersectTri ray tr ip) = ray_D ray"
  "ray_rD (IntersectTri ray tr ip) = ray_rD ray"
  "0 < hit_t (hit ray) \<Longrightarrow> 0 < hit_t (hit (IntersectTri ray tr ip))"
  "hit_t (hit (IntersectTri ray tr ip)) \<le> hit_t (hit ray)"
  by (simp_all add: IntersectTri_unfold near_eps_def)

lemma fold_IntersectTri_keeps:
  fixes f :: "nat \<Rightarrow> Ray \<Rightarrow> Ray"
  assumes f: "\<And>i r. \<exists>tr ip. f i r = IntersectTri r tr ip"
  shows "ray_O (fold f xs ray) = ray_O ray \<and> ray_D (fold f xs ray) = ray_D ray \<and>
        ray_rD (fold f xs ray) = ray_rD ray \<and>
        (0 < hit_t (hit ray) \<longrightarrow> 0 < hit_t (hit (fold f xs ray))) \<and>
        hit_t (hit (fold f xs ray)) \<le> hit_t (hit ray)"
proof (induction xs arbitrary: ray)
  case Nil
  then show ?case by simp
next
  case (Cons a xs)
  obtain tr ip where a: "f a ray = IntersectTri ray tr ip" using f by blast
  show ?case using Cons[of "f a ray"] IntersectTri_keeps[of ray tr ip] unfolding a
    by (auto simp: a)
qed

lemma leaf_tris_keeps:
  "ray_O (leaf_tris mesh s inst node ray) = ray_O ray \<and>
   ray_D (leaf_tris mesh s inst node ray) = ray_D ray \<and>
   ray_rD (leaf_tris mesh s inst node ray) = ray_rD ray \<and>
   (0 < hit_t (hit ray) \<longrightarrow> 0 < hit_t (hit (leaf_tris mesh s inst node ray))) \<and>
   hit_t (hit (leaf_tris mesh s inst node ray)) \<le> hit_t (hit ray)"
  unfolding leaf_tris_def by (rule fold_IntersectTri_keeps) (auto simp: Let_def)

definition ray_inside :: "Ray \<Rightarrow> bool" where
  "ray_inside ray \<longleftrightarrow>
     xc (ray_rD ray) \<noteq> 0 \<and> yc (ray_rD ray) \<noteq> 0 \<and> zc (ray_rD ray) \<noteq> 0 \<and>
     \<bar>xc (ray_O ray)\<bar> < inf30 \<and> \<bar>yc (ray_O ray)\<bar> < inf30 \<and> \<bar>zc (ray_O ray)\<bar> < inf30 \<and>
     0 < hit_t (hit ray)"

lemma slab_straddle:
  fixes p0 d :: real
  assumes "d \<noteq> 0" "\<bar>p0\<bar> < inf30"
  shows "min ((inf30 - p0) * d) ((- inf30 - p0) * d) < 0 \<and> 0 < max ((inf30 - p0) * d) ((- inf30 - p0) * d)"
proof (cases "0 < d")
  case True
  have "0 < (inf30 - p0) * d" using True assms by (intro mult_pos_pos) auto
  moreover have "(- inf30 - p0) * d < 0" using True assms by (intro mult_neg_pos) auto
  ultimately show ?thesis by (simp add: min_def max_def)
next
  case False
  then have d: "d < 0" using assms by simp
  have "(inf30 - p0) * d < 0" using d assms by (intro mult_pos_neg) auto
  moreover have "0 < (- inf30 - p0) * d" using d assms by (intro mult_neg_neg) auto
  ultimately show ?thesis by (simp add: min_def max_def)
qed

definition slab_tmin :: "Ray \<Rightarrow> float3 \<Rightarrow> float3 \<Rightarrow> real" where
  "slab_tmin ray lo hi =
     max (max (min ((xc lo - xc (ray_O ray)) * xc (ray_rD ray)) ((xc hi - xc (ray_O ray)) * xc (ray_rD ray)))
              (min ((yc lo - yc (ray_O ray)) * yc (ray_rD ray)) ((yc hi - yc (ray_O ray)) * yc (ray_rD ray))))
         (min ((zc lo - zc (ray_O ray)) * zc (ray_rD ray)) ((zc hi - zc (ray_O ray)) * zc (ray_rD ray)))"

definition slab_tmax :: "Ray \<Rightarrow> float3 \<Rightarrow> float3 \<Rightarrow> real" where
  "slab_tmax ray lo hi =
     min (min (max ((xc lo - xc (ray_O ray)) * xc (ray_rD ray)) ((xc hi - xc (ray_O ray)) * xc (ray_rD ray)))
              (max ((yc lo - yc (ray_O ray)) * yc (ray_rD ray)) ((yc hi - yc (ray_O ray)) * yc (ray_rD ray))))
         (max ((zc lo - zc (ray_O ray)) * zc (ray_rD ray)) ((zc hi - zc (ray_O ray)) * zc (ray_rD ray)))"

lemma IntersectAABB_slab:
  "IntersectAABB ray lo hi =
     (if slab_tmax ray lo hi \<ge> slab_tmin ray lo hi \<and> slab_tmin ray lo hi < hit_t (hit ray) \<and>
         slab_tmax ray lo hi > 0
      then slab_tmin ray lo hi else inf30)"
  unfolding IntersectAABB_def slab_tmin_def slab_tmax_def Let_def by (rule refl)

lemma IntersectAABB_empty_box:
  assumes "ray_inside ray"
  shows "IntersectAABB ray (float3_splat inf30) (float3_splat (- inf30)) < 0"
proof -
  note x = slab_straddle[of "xc (ray_rD ray)" "xc (ray_O ray)"]
  note y = slab_straddle[of "yc (ray_rD ray)" "yc (ray_O ray)"]
  note z = slab_straddle[of "zc (ray_rD ray)" "zc (ray_O ray)"]
  have lo: "slab_tmin ray (float3_splat inf30) (float3_splat (- inf30)) < 0"
    using assms x y z unfolding slab_tmin_def float3_splat_def ray_inside_def by simp
  have hi: "0 < slab_tmax ray (float3_splat inf30) (float3_splat (- inf30))"
    using assms x y z unfolding slab_tmax_def float3_splat_def ray_inside_def by simp
  have "0 < hit_t (hit ray)" using assms by (simp add: ray_inside_def)
  then show ?thesis using lo hi by (simp add: IntersectAABB_slab)
qed

lemma inf30_pos: "0 < inf30"
  by (simp add: inf30_def)

lemma Intersect_loop_trapped:
  assumes rt: "aabbMin (bvhNode s 0) = float3_splat inf30" "aabbMax (bvhNode s 0) = float3_splat (- inf30)"
    "leftFirst (bvhNode s 0) = 0" "BVHNode.triCount (bvhNode s 0) = 0"
  shows "node = 0 \<or> 0 \<in> set stack \<Longrightarrow> ray_inside ray \<Longrightarrow>
         Intersect_loop n mesh s inst node stack ray \<noteq> Finished r"
proof (induction n arbitrary: node stack ray)
  case 0
  then show ?case by simp
next
  case (Suc n)
  note ri = Suc.prems(2)
  show ?case
  proof (cases "isLeaf (bvhNode s node)")
    case True
    have "node \<noteq> 0"
    proof
      assume "node = 0"
      with True rt(4) show False by (simp add: isLeaf_def)
    qed
    then have in_stack: "0 \<in> set stack" using Suc.prems by simp
    then obtain nd rest where st: "stack = nd # rest" by (cases stack) auto
    let ?ray' = "leaf_tris mesh s inst (bvhNode s node) ray"
    have ri': "ray_inside ?ray'"
      using ri leaf_tris_keeps[of mesh s inst "bvhNode s node" ray] by (simp add: ray_inside_def)
    have "nd = 0 \<or> 0 \<in> set rest" using in_stack st by auto
    from Suc.IH[OF this ri'] show ?thesis using True st by (simp add: Let_def)
  next
    case False
    let ?c1 = "leftFirst (bvhNode s node)"
    let ?d1 = "IntersectAABB ray (aabbMin (bvhNode s ?c1)) (aabbMax (bvhNode s ?c1))"
    let ?d2 = "IntersectAABB ray (aabbMin (bvhNode s (?c1 + 1))) (aabbMax (bvhNode s (?c1 + 1)))"
    have ih: "Intersect_loop n mesh s inst nd st ray \<noteq> Finished r" if "nd = 0 \<or> 0 \<in> set st" for nd st
      using Suc.IH[OF that ri] .
    show ?thesis
    proof (cases "node = 0")
      case True
      have d1: "?d1 < 0" using True rt IntersectAABB_empty_box[OF ri] by simp
      then have ne: "?d1 \<noteq> inf30" using inf30_pos by simp
      show ?thesis
      proof (cases "?d1 > ?d2")
        case sw: True
        then have "?d2 \<noteq> inf30" using d1 inf30_pos by simp
        then show ?thesis using False sw ne True rt ih[of "Suc 0" "0 # stack"]
          by (simp add: Let_def)
      next
        case nsw: False
        then show ?thesis using False ne True rt ih[of 0 stack] ih[of 0 "Suc 0 # stack"]
          by (simp add: Let_def)
      qed
    next
      case nz: False
      then have in_stack: "0 \<in> set stack" using Suc.prems by simp
      then obtain nd rest where st: "stack = nd # rest" by (cases stack) auto
      have pop: "nd = 0 \<or> 0 \<in> set rest" using in_stack st by auto
      show ?thesis
        using False st ih[OF pop] in_stack
          ih[of ?c1 stack] ih[of "?c1 + 1" stack]
          ih[of ?c1 "(?c1 + 1) # stack"] ih[of "?c1 + 1" "?c1 # stack"]
        by (simp add: Let_def split: if_splits)
    qed
  qed
qed

text \<open>
  C7. For a mesh without triangles \<^verbatim>\<open>Build\<close> returns with \<open>nodesUsed = 2\<close> and a root whose
  \<open>triCount\<close> is 0. Such a node is not a leaf, so the traversal reads it as an interior
  node whose left child is slot 0, the root itself, and the empty box (min = 1e30,
  max = -1e30) passes the slab test: the traversal never finishes, whatever the number of
  iterations allowed and whatever the unused slot 1 holds. The claim says that it is a
  no-op.
\<close>

theorem Intersect_empty_mesh:
  "nodesUsed (snd (Build U (mesh\<lparr>Mesh.triCount := 0\<rparr>) s)) = 2 \<and>
   BVHNode.triCount (bvhNode (snd (Build U (mesh\<lparr>Mesh.triCount := 0\<rparr>) s)) 0) = 0 \<and>
   leftFirst (bvhNode (snd (Build U (mesh\<lparr>Mesh.triCount := 0\<rparr>) s)) 0) = 0 \<and>
   Intersect fuel (fst (Build U (mesh\<lparr>Mesh.triCount := 0\<rparr>) s)) (snd (Build U (mesh\<lparr>Mesh.triCount := 0\<rparr>) s))
      tieRay inst \<noteq> Finished r"
proof -
  let ?m = "mesh\<lparr>Mesh.triCount := 0\<rparr>"
  have e: "Mesh.triCount ?m = 0" by simp
  note b = Build_empty[OF e, where U = U and s = s]
  have ri: "ray_inside tieRay"
    by (simp add: ray_inside_def tieRay_def P3_def inf30_def)
  have "Intersect_loop fuel (fst (Build U ?m s)) (snd (Build U ?m s)) inst 0 [] tieRay \<noteq> Finished r"
    by (rule Intersect_loop_trapped) (simp_all add: b(3) ri)
  then show ?thesis using b(2,3) by (simp add: Intersect_def)
qed

text \<open>
  C6. \<^verbatim>\<open>Build\<close> followed by \<^verbatim>\<open>Refit\<close> on the unchanged mesh leaves every box as it was:
  this holds for every mesh with at least one triangle (\<open>Build_Refit_id\<close>). For a mesh
  without triangles the root is read as an interior node with children 0 and 1, and
  \<^verbatim>\<open>Refit\<close> merges the never written slot 1 into it: with zeros there, the root's box
  goes from the empty box to the point (0,0,0).
\<close>

theorem Build_Refit_empty_mesh:
  "node_box (bvhNode (snd (Build U (mesh\<lparr>Mesh.triCount := 0\<rparr>) zeroBVH)) 0)
     = (float3_splat inf30, float3_splat (- inf30)) \<and>
   node_box (bvhNode (Refit (fst (Build U (mesh\<lparr>Mesh.triCount := 0\<rparr>) zeroBVH))
                            (snd (Build U (mesh\<lparr>Mesh.triCount := 0\<rparr>) zeroBVH))) 0)
     = (P3 0 0 0, P3 0 0 0) \<and>
   bvhNode (Refit (fst (Build U (mesh\<lparr>Mesh.triCount := 0\<rparr>) zeroBVH))
                            (snd (Build U (mesh\<lparr>Mesh.triCount := 0\<rparr>) zeroBVH))) 0
     \<noteq> bvhNode (snd (Build U (mesh\<lparr>Mesh.triCount := 0\<rparr>) zeroBVH)) 0"
proof -
  let ?m = "mesh\<lparr>Mesh.triCount := 0\<rparr>"
  have e: "Mesh.triCount ?m = 0" by simp
  note b = Build_empty[OF e, where U = U and s = zeroBVH]
  let ?s = "snd (Build U ?m zeroBVH)"
  have one: "bvhNode ?s (Suc 0) = zeroNode" using b(4)[of "Suc 0"] by (simp add: zeroBVH_def)
  have r: "Refit (fst (Build U ?m zeroBVH)) ?s = Refit_node (fst (Build U ?m zeroBVH)) 0 ?s"
    by (simp add: Refit_def b(2) numeral_2_eq_2 Refit_node_simps)
  have box0: "node_box (bvhNode ?s 0) = (float3_splat inf30, float3_splat (- inf30))"
    by (simp add: b(3) node_box_def)
  have box1: "node_box (bvhNode (Refit (fst (Build U ?m zeroBVH)) ?s) 0) = (P3 0 0 0, P3 0 0 0)"
    unfolding r
    by (simp add: Refit_node_def Let_def isLeaf_def b(3) one node_upd_simps node_box_def zeroNode_def
        fminf_def fmaxf_def float3_splat_def P3_def inf30_def)
  have "node_box (bvhNode (Refit (fst (Build U ?m zeroBVH)) ?s) 0) \<noteq> node_box (bvhNode ?s 0)"
    unfolding box0 box1 by (simp add: P3_def float3_splat_def inf30_def)
  then show ?thesis using box0 box1 by auto
qed

section \<open>Traversal against the brute-force scan\<close>

subsection \<open>Where the ray meets the plane of the triangle\<close>










subsection \<open>The low 20 bits of the packed identifier\<close>



lemma n1: "k < 2 ^ 20 \<Longrightarrow> take_bit 20 (take_bit 32 (take_bit 32 (push_bit 20 (n::nat)) + take_bit 32 k)) = k"
proof -
  assume k: "k < 2 ^ 20"
  have "take_bit 20 (take_bit 32 (take_bit 32 (push_bit 20 n) + take_bit 32 k))
      = take_bit 20 (take_bit 32 (push_bit 20 n) + take_bit 32 k)"
    by (simp add: take_bit_take_bit)
  also have "\<dots> = take_bit 20 (take_bit 20 (take_bit 32 (push_bit 20 n)) + take_bit 20 (take_bit 32 k))"
    by (rule take_bit_add[symmetric])
  also have "take_bit 20 (take_bit 32 (push_bit 20 n)) = 0"
    by (simp add: take_bit_take_bit take_bit_push_bit)
  also have "take_bit 20 (take_bit 32 k) = k"
    using k by (simp add: take_bit_take_bit take_bit_nat_eq_self)
  finally show ?thesis using k by (simp add: take_bit_nat_eq_self)
qed



subsection \<open>The closest hit over a set of triangles\<close>













subsection \<open>Boxes enclose, and the slab test does not miss\<close>









subsection \<open>The traversal loop\<close>








lemma loop_leaf:
  "isLeaf (bvhNode s node) \<Longrightarrow>
   Intersect_loop (Suc n) mesh s inst node stack ray =
     (case stack of
        [] \<Rightarrow> Finished (leaf_tris mesh s inst (bvhNode s node) ray)
      | nd # rest \<Rightarrow> Intersect_loop n mesh s inst nd rest (leaf_tris mesh s inst (bvhNode s node) ray))"
  by (simp add: Let_def)

definition pop :: "nat \<Rightarrow> Mesh \<Rightarrow> BVH \<Rightarrow> 32 word \<Rightarrow> nat list \<Rightarrow> Ray \<Rightarrow> traversal" where
  "pop n mesh s inst stack ray =
     (case stack of [] \<Rightarrow> Finished ray | nd # rest \<Rightarrow> Intersect_loop n mesh s inst nd rest ray)"









section \<open>Ray against triangle: the claims\<close>






section \<open>The top-level structure\<close>

text \<open>
  Modelled from the spec: the matrix type and \<^verbatim>\<open>TransformPosition\<close>, \<^verbatim>\<open>TransformVector\<close> are
  math primitives outside the sources. A matrix is its 16 cells, row by row; a position is
  multiplied as \<open>(x, y, z, 1)\<close>, a vector as \<open>(x, y, z, 0)\<close>.
\<close>

record mat4 =
  mcell :: "nat \<Rightarrow> real"

definition TransformPosition :: "float3 \<Rightarrow> mat4 \<Rightarrow> float3" where
  "TransformPosition a M =
     \<lparr>xc = mcell M 0 * xc a + mcell M 1 * yc a + mcell M 2 * zc a + mcell M 3,
      yc = mcell M 4 * xc a + mcell M 5 * yc a + mcell M 6 * zc a + mcell M 7,
      zc = mcell M 8 * xc a + mcell M 9 * yc a + mcell M 10 * zc a + mcell M 11\<rparr>"

definition TransformVector :: "float3 \<Rightarrow> mat4 \<Rightarrow> float3" where
  "TransformVector a M =
     \<lparr>xc = mcell M 0 * xc a + mcell M 1 * yc a + mcell M 2 * zc a,
      yc = mcell M 4 * xc a + mcell M 5 * yc a + mcell M 6 * zc a,
      zc = mcell M 8 * xc a + mcell M 9 * yc a + mcell M 10 * zc a\<rparr>"

text \<open>
  An instance: the pointer \<^verbatim>\<open>bvh\<close> is modelled by the object it points to and the mesh that
  object points to. The fields of the structs of this section carry a prefix where the
  name is taken by a field of the bottom-level structure.
\<close>

record BVHInstance =
  inst_mesh :: Mesh
  inst_bvh :: BVH
  transform :: mat4
  invTransform :: mat4
  inst_bounds :: aabb
  inst_idx :: "32 word"

text \<open>
  Modelled from the spec: \<^verbatim>\<open>TLASNode\<close> is declared in a header outside the sources. A node is
  aabbMin, leftRight, aabbMax, BLAS; it is a leaf iff \<open>leftRight = 0\<close>; an interior node
  holds two 16-bit child indices, the left one in the low half.
\<close>

record TLASNode =
  tl_aabbMin :: float3
  leftRight :: "32 word"
  tl_aabbMax :: float3
  BLAS :: nat

definition tl_isLeaf :: "TLASNode \<Rightarrow> bool" where
  "tl_isLeaf node \<longleftrightarrow> leftRight node = 0"

text \<open>
  The object \<^verbatim>\<open>TLAS\<close>. \<^verbatim>\<open>nodeIdx\<close> is read at \<^verbatim>\<open>int\<close> indices, and \<^verbatim>\<open>FindBestMatch\<close> can hand
  back \<open>-1\<close>, so the memory behind it is indexed by integers.
\<close>

record TLAS =
  tlasNode :: "nat \<Rightarrow> TLASNode"
  blas :: "nat \<Rightarrow> BVHInstance"
  tl_nodesUsed :: nat
  blasCount :: nat
  nodeIdx :: "int \<Rightarrow> nat"

subsection \<open>SetTransform and the instance's Intersect\<close>

text \<open>\<^verbatim>\<open>mat4::Inverted\<close> is not in the sources; it is the parameter \<open>Inverted\<close>.\<close>

definition corner :: "float3 \<Rightarrow> float3 \<Rightarrow> nat \<Rightarrow> float3" where
  "corner bmn bmx i =
     \<lparr>xc = (if i AND 1 \<noteq> 0 then xc bmx else xc bmn),
      yc = (if i AND 2 \<noteq> 0 then yc bmx else yc bmn),
      zc = (if i AND 4 \<noteq> 0 then zc bmx else zc bmn)\<rparr>"

definition SetTransform :: "(mat4 \<Rightarrow> mat4) \<Rightarrow> mat4 \<Rightarrow> BVHInstance \<Rightarrow> BVHInstance" where
  "SetTransform Inverted T inst =
     (let bmn = aabbMin (bvhNode (inst_bvh inst) 0);
          bmx = aabbMax (bvhNode (inst_bvh inst) 0)
      in inst\<lparr>transform := T, invTransform := Inverted T,
              inst_bounds := fold (\<lambda>i b. grow b (TransformPosition (corner bmn bmx i) T))
                               [0..<8] aabb_empty\<rparr>)"

definition recip3 :: "float3 \<Rightarrow> float3" where
  "recip3 d = \<lparr>xc = 1 / xc d, yc = 1 / yc d, zc = 1 / zc d\<rparr>"

definition BVHInstance_Intersect :: "nat \<Rightarrow> BVHInstance \<Rightarrow> Ray \<Rightarrow> traversal" where
  "BVHInstance_Intersect fuel inst ray =
     (let backupRay = ray;
          ray1 = ray\<lparr>ray_O := TransformPosition (ray_O ray) (invTransform inst)\<rparr>;
          ray2 = ray1\<lparr>ray_D := TransformVector (ray_D ray1) (invTransform inst)\<rparr>;
          ray3 = ray2\<lparr>ray_rD := recip3 (ray_D ray2)\<rparr>
      in case Intersect fuel (inst_mesh inst) (inst_bvh inst) ray3 (inst_idx inst) of
           Finished ray4 \<Rightarrow> Finished (backupRay\<lparr>hit := hit ray4\<rparr>)
         | StackOverflow \<Rightarrow> StackOverflow
         | OutOfFuel \<Rightarrow> OutOfFuel)"

subsection \<open>The reference build\<close>

definition FindBestMatch :: "TLAS \<Rightarrow> int \<Rightarrow> int \<Rightarrow> int" where
  "FindBestMatch tls N A =
     snd (fold (\<lambda>B (smallest, bestB).
                  if int B \<noteq> A
                  then let bmx = fmaxf (tl_aabbMax (tlasNode tls (nodeIdx tls A)))
                                       (tl_aabbMax (tlasNode tls (nodeIdx tls (int B))));
                           bmn = fminf (tl_aabbMin (tlasNode tls (nodeIdx tls A)))
                                       (tl_aabbMin (tlasNode tls (nodeIdx tls (int B))));
                           e = f3_sub bmx bmn;
                           surfaceArea = xc e * yc e + yc e * zc e + zc e * xc e
                       in if surfaceArea < smallest then (surfaceArea, int B)
                          else (smallest, bestB)
                  else (smallest, bestB))
            [0..<nat N] (inf30, - 1))"

definition tl_node_upd :: "nat \<Rightarrow> (TLASNode \<Rightarrow> TLASNode) \<Rightarrow> TLAS \<Rightarrow> TLAS" where
  "tl_node_upd k f tls = tls\<lparr>tlasNode := (tlasNode tls)(k := f (tlasNode tls k))\<rparr>"

definition Build_leaf :: "nat \<Rightarrow> TLAS \<Rightarrow> TLAS" where
  "Build_leaf i tls =
     (let tl1 = tls\<lparr>nodeIdx := (nodeIdx tls)(int i := tl_nodesUsed tls)\<rparr>;
          tl2 = tl_node_upd (tl_nodesUsed tl1)
                  (\<lambda>n. n\<lparr>tl_aabbMin := bmin (inst_bounds (blas tl1 i))\<rparr>) tl1;
          tl3 = tl_node_upd (tl_nodesUsed tl2)
                  (\<lambda>n. n\<lparr>tl_aabbMax := bmax (inst_bounds (blas tl2 i))\<rparr>) tl2;
          tl4 = tl_node_upd (tl_nodesUsed tl3) (\<lambda>n. n\<lparr>BLAS := i\<rparr>) tl3;
          tl5 = tl_node_upd (tl_nodesUsed tl4) (\<lambda>n. n\<lparr>leftRight := 0\<rparr>) tl4
      in tl5\<lparr>tl_nodesUsed := tl_nodesUsed tl5 + 1\<rparr>)"

text \<open>
  One merge of the clustering loop: the new interior node, and the two slots of the index
  array. The result is the object and the new \<open>B\<close>; \<open>nodeIndices\<close> has gone down by one.
\<close>

definition merge_pair :: "TLAS \<Rightarrow> int \<Rightarrow> int \<Rightarrow> int \<Rightarrow> TLAS \<times> int" where
  "merge_pair tls nodeIndices A B =
     (let nodeIdxA = nodeIdx tls A; nodeIdxB = nodeIdx tls B;
          nodeA = tlasNode tls nodeIdxA; nodeB = tlasNode tls nodeIdxB;
          tl1 = tl_node_upd (tl_nodesUsed tls)
                  (\<lambda>n. n\<lparr>tl_aabbMin := fminf (tl_aabbMin nodeA) (tl_aabbMin nodeB)\<rparr>) tls;
          tl2 = tl_node_upd (tl_nodesUsed tl1)
                  (\<lambda>n. n\<lparr>tl_aabbMax := fmaxf (tl_aabbMax (tlasNode tl1 nodeIdxA))
                                             (tl_aabbMax (tlasNode tl1 nodeIdxB))\<rparr>) tl1;
          tl3 = tl_node_upd (tl_nodesUsed tl2)
                  (\<lambda>n. n\<lparr>leftRight := word_of_nat nodeIdxA + push_bit 16 (word_of_nat nodeIdxB)\<rparr>) tl2;
          tl4 = tl3\<lparr>nodeIdx := (nodeIdx tl3)(A := tl_nodesUsed tl3),
                    tl_nodesUsed := tl_nodesUsed tl3 + 1\<rparr>;
          tl5 = tl4\<lparr>nodeIdx := (nodeIdx tl4)(B := nodeIdx tl4 (nodeIndices - 1))\<rparr>
      in (tl5, FindBestMatch tl5 (nodeIndices - 1) A))"

fun cluster_loop :: "nat \<Rightarrow> TLAS \<Rightarrow> int \<Rightarrow> int \<Rightarrow> int \<Rightarrow> (TLAS \<times> int) option" where
  "cluster_loop 0 tls nodeIndices A B = None"
| "cluster_loop (Suc n) tls nodeIndices A B =
     (if nodeIndices > 1
      then let C = FindBestMatch tls nodeIndices B
           in if A = C
              then let (tls', B') = merge_pair tls nodeIndices A B
                   in cluster_loop n tls' (nodeIndices - 1) A B'
              else cluster_loop n tls nodeIndices B C
      else Some (tls, A))"

definition Build_leaves :: "TLAS \<Rightarrow> TLAS" where
  "Build_leaves tls = fold Build_leaf [0..<blasCount tls] (tls\<lparr>tl_nodesUsed := 1\<rparr>)"

text \<open>
  The \<^verbatim>\<open>while\<close> loop of \<^verbatim>\<open>Build\<close> runs on fuel: \<open>None\<close> when the fuel does not suffice. The
  output to \<^verbatim>\<open>pairs.txt\<close> is not modelled.
\<close>

definition TLAS_Build :: "nat \<Rightarrow> TLAS \<Rightarrow> TLAS option" where
  "TLAS_Build fuel tls =
     (let tl1 = Build_leaves tls;
          nodeIndices = int (blasCount tl1);
          A = 0; B = FindBestMatch tl1 nodeIndices A
      in case cluster_loop fuel tl1 nodeIndices A B of
           None \<Rightarrow> None
         | Some (tl2, A') \<Rightarrow>
             Some (tl2\<lparr>tlasNode := (tlasNode tl2)(0 := tlasNode tl2 (nodeIdx tl2 A'))\<rparr>))"

subsection \<open>The top-level traversal\<close>

fun TLAS_Intersect_loop :: "nat \<Rightarrow> nat \<Rightarrow> TLAS \<Rightarrow> nat \<Rightarrow> nat list \<Rightarrow> Ray \<Rightarrow> traversal" where
  "TLAS_Intersect_loop 0 fuel tls node stack ray = OutOfFuel"
| "TLAS_Intersect_loop (Suc n) fuel tls node stack ray =
     (if tl_isLeaf (tlasNode tls node)
      then (case BVHInstance_Intersect fuel (blas tls (BLAS (tlasNode tls node))) ray of
              Finished ray' \<Rightarrow>
                (case stack of
                   [] \<Rightarrow> Finished ray'
                 | nd # rest \<Rightarrow> TLAS_Intersect_loop n fuel tls nd rest ray')
            | StackOverflow \<Rightarrow> StackOverflow
            | OutOfFuel \<Rightarrow> OutOfFuel)
      else
        let child1 = unat (leftRight (tlasNode tls node) AND 0xffff);
            child2 = unat (drop_bit 16 (leftRight (tlasNode tls node)));
            dist1 = IntersectAABB ray (tl_aabbMin (tlasNode tls child1)) (tl_aabbMax (tlasNode tls child1));
            dist2 = IntersectAABB ray (tl_aabbMin (tlasNode tls child2)) (tl_aabbMax (tlasNode tls child2));
            (dist1, dist2, child1, child2) =
               (if dist1 > dist2 then (dist2, dist1, child2, child1)
                else (dist1, dist2, child1, child2))
        in if dist1 = inf30
           then (case stack of
                   [] \<Rightarrow> Finished ray
                 | nd # rest \<Rightarrow> TLAS_Intersect_loop n fuel tls nd rest ray)
           else if dist2 \<noteq> inf30
                then if length stack \<ge> 64 then StackOverflow
                     else TLAS_Intersect_loop n fuel tls child1 (child2 # stack) ray
                else TLAS_Intersect_loop n fuel tls child1 stack ray)"

definition TLAS_Intersect :: "nat \<Rightarrow> TLAS \<Rightarrow> Ray \<Rightarrow> traversal" where
  "TLAS_Intersect fuel tls ray =
     TLAS_Intersect_loop fuel fuel tls 0 [] (ray\<lparr>ray_rD := recip3 (ray_D ray)\<rparr>)"

subsection \<open>The sort of the fast build\<close>

record SortItem =
  pos :: real
  blasIdx :: nat

definition Swap :: "(nat \<Rightarrow> SortItem) \<Rightarrow> nat \<Rightarrow> nat \<Rightarrow> nat \<Rightarrow> SortItem" where
  "Swap a i j = a(i := a j, j := a i)"

text \<open>The state of the loop of \<^verbatim>\<open>Pivot\<close> is the array and \<open>p\<close>.\<close>

definition Pivot :: "(nat \<Rightarrow> SortItem) \<Rightarrow> int \<Rightarrow> int \<Rightarrow> (nat \<Rightarrow> SortItem) \<times> int" where
  "Pivot a first lst =
     (let e = a (nat first);
          (a1, p) = fold (\<lambda>i (a, p).
                            if pos (a (nat i)) \<le> pos e then (Swap a (nat i) (nat (p + 1)), p + 1)
                            else (a, p))
                      [first + 1..lst] (a, first)
      in (Swap a1 (nat p) (nat first), p))"

lemma Pivot_loop_bounds:
  "snd (fold (\<lambda>i (a, p). if pos (a (nat i)) \<le> e then (Swap a (nat i) (nat (p + 1)), p + 1)
                           else (a, p)) is (a, p))
     \<in> {p .. p + int (length is)}"
proof (induction "is" arbitrary: a p)
  case Nil
  then show ?case by simp
next
  case (Cons i "is")
  show ?case
    using Cons [of "Swap a (nat i) (nat (p + 1))" "p + 1"] Cons [of a p]
    by (auto split: if_splits)
qed

lemma Pivot_bounds:
  assumes "first \<le> lst"
  shows "first \<le> snd (Pivot a first lst)" and "snd (Pivot a first lst) \<le> lst"
  using Pivot_loop_bounds [of "pos (a (nat first))" "[first + 1..lst]" a first] assms
  by (auto simp: Pivot_def Let_def split: prod.splits)

function QuickSort :: "(nat \<Rightarrow> SortItem) \<Rightarrow> int \<Rightarrow> int \<Rightarrow> nat \<Rightarrow> SortItem" where
  "QuickSort a first lst =
     (if first \<ge> lst then a
      else let (a1, pivotElement) = Pivot a first lst;
               a2 = QuickSort a1 first (pivotElement - 1)
           in QuickSort a2 (pivotElement + 1) lst)"
  by pat_completeness auto

termination
proof (relation "measure (\<lambda>(a, first, lst). nat (lst - first))")
  show "wf (measure (\<lambda>(a, first, lst). nat (lst - first)))"
    by simp
next
  fix a :: "nat \<Rightarrow> SortItem" and first lst :: int and x a1 pivotElement
  assume "\<not> lst \<le> first" and "x = Pivot a first lst" and "(a1, pivotElement) = x"
  then show "((a1, first, pivotElement - 1), (a, first, lst))
               \<in> measure (\<lambda>(a, first, lst). nat (lst - first))"
    using Pivot_bounds [of first lst a] by (cases "Pivot a first lst") auto
next
  fix a :: "nat \<Rightarrow> SortItem" and first lst :: int and x a1 pivotElement a2
  assume "\<not> lst \<le> first" and "x = Pivot a first lst" and "(a1, pivotElement) = x"
  then show "((a2, pivotElement + 1, lst), (a, first, lst))
               \<in> measure (\<lambda>(a, first, lst). nat (lst - first))"
    using Pivot_bounds [of first lst a] by (cases "Pivot a first lst") auto
qed

declare QuickSort.simps [simp del]

text \<open>
  The file-level statics of the fast build. \<^verbatim>\<open>KDTree\<close> is a class outside the sources: an
  object of it is recorded as the arguments of its constructor.
\<close>

datatype KDTree = KDTree nat nat nat

record Statics =
  item :: "nat \<Rightarrow> SortItem"
  tree :: "nat \<Rightarrow> KDTree option"
  treeSize :: "nat \<Rightarrow> nat"
  treeIdx :: nat

text \<open>
  \<^verbatim>\<open>SortAndSplit\<close>, the part before the recursive calls: the identity permutation at level
  0, the sort key of every item of the range, and the sort. The parameters are \<^verbatim>\<open>uint\<close>:
  natural numbers below \<open>2\<^sup>3\<^sup>2\<close>; the loop \<^verbatim>\<open>i <= last\<close> does not end when \<^verbatim>\<open>last\<close> is the largest
  of them, which is the value \<open>None\<close>.
\<close>

definition set_keys :: "TLAS \<Rightarrow> nat \<Rightarrow> nat \<Rightarrow> nat \<Rightarrow> (nat \<Rightarrow> SortItem) \<Rightarrow> nat \<Rightarrow> SortItem" where
  "set_keys tls axis first lst it =
     fold (\<lambda>i it. let idx = blasIdx (it i)
                   in it(i := (it i)\<lparr>pos := (cell 0 (bmin (inst_bounds (blas tls idx))) (int axis)
                                              + cell 0 (bmin (inst_bounds (blas tls idx))) (int axis))
                                             * (1 / 2)\<rparr>))
       [first..<Suc lst] it"

definition SortAndSplit_sort :: "TLAS \<Rightarrow> Statics \<Rightarrow> nat \<Rightarrow> nat \<Rightarrow> nat \<Rightarrow> Statics option" where
  "SortAndSplit_sort tls st first lst level =
     (let axis = level mod 3;
          st1 = (if level = 0
                 then st\<lparr>treeIdx := 0,
                         item := fold (\<lambda>i it. it(i := (it i)\<lparr>blasIdx := i\<rparr>))
                                   [0..<blasCount tls] (item st)\<rparr>
                 else st)
      in if lst = 2 ^ 32 - 1 then None
         else let st2 = st1\<lparr>item := set_keys tls axis first lst (item st1)\<rparr>
              in Some (st2\<lparr>item := QuickSort (item st2) (int first) (int lst)\<rparr>))"


text \<open>
  The rest of \<^verbatim>\<open>SortAndSplit\<close>: the two recursive calls at the levels 0 and 1, the two chunks
  of leaves at level 2. \<^verbatim>\<open>uint\<close> arithmetic that can wrap is written out.
\<close>

definition u32 :: "int \<Rightarrow> nat" where
  "u32 z = nat (z mod 2 ^ 32)"

definition chunk_leaf :: "Statics \<Rightarrow> nat \<Rightarrow> TLAS \<Rightarrow> TLAS" where
  "chunk_leaf st i tls =
     (let b = blas tls (blasIdx (item st i));
          tls1 = tl_node_upd (tl_nodesUsed tls) (\<lambda>n. n\<lparr>tl_aabbMin := bmin (inst_bounds b)\<rparr>) tls;
          tls2 = tl_node_upd (tl_nodesUsed tls1) (\<lambda>n. n\<lparr>tl_aabbMax := bmax (inst_bounds b)\<rparr>) tls1;
          tls3 = tl_node_upd (tl_nodesUsed tls2) (\<lambda>n. n\<lparr>BLAS := blasIdx (item st i)\<rparr>) tls2;
          tls4 = tl_node_upd (tl_nodesUsed tls3) (\<lambda>n. n\<lparr>leftRight := 0\<rparr>) tls3
      in tls4\<lparr>tl_nodesUsed := tl_nodesUsed tls4 + 1\<rparr>)"

definition new_tree :: "nat \<Rightarrow> nat \<Rightarrow> Statics \<Rightarrow> Statics" where
  "new_tree base n st =
     (let st1 = (if tree st (treeIdx st) = None
                 then st\<lparr>tree := (tree st)(treeIdx st \<mapsto> KDTree base n (u32 (int base)))\<rparr>
                 else st)
      in st1\<lparr>treeSize := (treeSize st1)(treeIdx st1 := n), treeIdx := treeIdx st1 + 1\<rparr>)"

function SortAndSplit :: "TLAS \<times> Statics \<Rightarrow> nat \<Rightarrow> nat \<Rightarrow> nat \<Rightarrow> (TLAS \<times> Statics) option" where
  "SortAndSplit S first lst level =
     (case SortAndSplit_sort (fst S) (snd S) first lst level of
        None \<Rightarrow> None
      | Some st \<Rightarrow>
          let tls = fst S;
              half = u32 (int first + int lst) div 2
          in if level < 2
             then (case SortAndSplit (tls, st) first half (level + 1) of
                     None \<Rightarrow> None
                   | Some S' \<Rightarrow> SortAndSplit S' (half + 1) lst (level + 1))
             else
               let tls1 = fold (chunk_leaf st) [first..<Suc half] tls;
                   st1 = new_tree (first + 32) (u32 (int half - int first + 1)) st;
                   tls2 = fold (chunk_leaf st1) [half + 1..<Suc lst] tls1;
                   st2 = new_tree (half + 33) (u32 (int lst - int half)) st1
               in Some (tls2, st2))"
  by pat_completeness auto

termination
  by (relation "measure (\<lambda>(S, first, lst, level). 2 - level)") auto

declare SortAndSplit.simps [simp del]

text \<open>The midpoint of the world-space box of an instance along an axis.\<close>

definition midpoint :: "BVHInstance \<Rightarrow> nat \<Rightarrow> real" where
  "midpoint inst axis =
     (cell 0 (bmin (inst_bounds inst)) (int axis) + cell 0 (bmax (inst_bounds inst)) (int axis)) / 2"

definition boxInst :: "real \<Rightarrow> real \<Rightarrow> BVHInstance" where
  "boxInst lo hi =
     \<lparr>inst_mesh = tieMesh, inst_bvh = zeroBVH, transform = \<lparr>mcell = (\<lambda>i. 0)\<rparr>,
      invTransform = \<lparr>mcell = (\<lambda>i. 0)\<rparr>,
      inst_bounds = \<lparr>bmin = P3 lo 0 0, bmax = P3 hi 1 1\<rparr>, inst_idx = 0\<rparr>"

definition sortTLAS :: TLAS where
  "sortTLAS =
     \<lparr>tlasNode = (\<lambda>i. \<lparr>tl_aabbMin = P3 0 0 0, leftRight = 0, tl_aabbMax = P3 0 0 0, BLAS = 0\<rparr>),
      blas = (\<lambda>i. if i = 0 then boxInst 0 10 else boxInst 1 2),
      tl_nodesUsed = 32, blasCount = 2, nodeIdx = (\<lambda>i. 0)\<rparr>"

definition zeroStatics :: Statics where
  "zeroStatics =
     \<lparr>item = (\<lambda>i. \<lparr>pos = 0, blasIdx = 0\<rparr>), tree = (\<lambda>i. None), treeSize = (\<lambda>i. 0), treeIdx = 0\<rparr>"

text \<open>The midpoints of the items of a range, in the order of the items.\<close>

definition midpoints :: "TLAS \<Rightarrow> Statics \<Rightarrow> nat \<Rightarrow> nat \<Rightarrow> nat \<Rightarrow> real list" where
  "midpoints tls st first lst axis =
     map (\<lambda>i. midpoint (blas tls (blasIdx (item st i))) axis) [first..<Suc lst]"


lemma QuickSort_done: "lst \<le> first \<Longrightarrow> QuickSort a first lst = a"
  by (simp add: QuickSort.simps [of a first lst])

lemma upto_01: "[1..1] = [1::int]" "[0 + 1..1] = [1::int]"
  by (simp_all add: upto.simps)

lemma upt_02: "[0..<2] = [0, 1::nat]"
  by (simp add: upt_rec)

text \<open>
  C4. \<^verbatim>\<open>SortAndSplit\<close> computes the sort key as \<open>(bmin[axis] + bmin[axis]) * 0.5\<close>, which is
  \<open>bmin[axis]\<close>, not the midpoint of the box. Two instances whose boxes span \<open>[0, 10]\<close> and
  \<open>[1, 2]\<close> along the x axis are left in this order by the sort at level 0 (axis 0), and
  their midpoints along that axis, 5 and 3/2, are then in decreasing order.
\<close>

theorem SortAndSplit_sorts_by_bmin:
  "map_option (\<lambda>st. (map (\<lambda>i. blasIdx (item st i)) [0..<2], midpoints sortTLAS st 0 1 0))
     (SortAndSplit_sort sortTLAS zeroStatics 0 1 0)
     = Some ([0, 1], [5, 3 / 2])"
  by (simp add: SortAndSplit_sort_def sortTLAS_def zeroStatics_def set_keys_def boxInst_def P3_def
        cell_def midpoints_def midpoint_def
        QuickSort.simps [of _ 0 1] QuickSort_done
        Pivot_def upto_01 upt_02 Swap_def Let_def del: upt_Suc One_nat_def)


section \<open>Capacity\<close>


















end
